theory Spec2Isabelle
  imports Complex_Main "HOL-Library.Word"
begin

unbundle bit_operations_syntax

section \<open>The growth simulation of generator.js\<close>

text \<open>
  The embedding follows \<^verbatim>\<open>src/js/generator.js\<close>. JavaScript numbers are modelled
  as \<^typ>\<open>real\<close> (the geometry, the configuration and the draws) and as \<^typ>\<open>int\<close>
  (counters and the generator's state, which the code keeps in a number that only ever
  holds an integer); rounding of doubles is not modelled. Line objects live in a store,
  a list indexed by address, so that the identity comparisons of the collision detector
  and the mutation of lines through the snapshot of a tick are the ones of the code.
\<close>

subsection \<open>Data\<close>

record point =
  px :: real
  py :: real

record line =
  p0 :: point
  p1 :: point
  angle :: real
  generation :: nat
  parent :: "nat option"
  active :: bool
  split :: bool
  expired :: bool
  steps :: nat
  rnd_tag :: real

record seed =
  seed_angle :: real
  lines :: "nat list"

record config =
  seedCount :: int
  pBifurcation :: real
  expiryThreshold :: real

text \<open>
  What the code reads from its surroundings: the global \<^verbatim>\<open>canvas\<close> (its width and
  height) and the \<^verbatim>\<open>isVisible\<close> test of the canvas given to the collision detector.
\<close>

record env =
  canvas_width :: real
  canvas_height :: real
  isVisible :: "real \<Rightarrow> real \<Rightarrow> bool"

text \<open>
  The variables closed over by \<^verbatim>\<open>buildModel\<close> and \<^verbatim>\<open>randomFromSeed\<close>: the store of
  line objects, \<^verbatim>\<open>seeds\<close> (undefined until \<^verbatim>\<open>generate\<close> assigns it),
  \<^verbatim>\<open>activeLineCount\<close> and the generator's \<^verbatim>\<open>seed\<close>.
\<close>

record model =
  heap :: "line list"
  seeds :: "seed list option"
  activeLineCount :: int
  rng :: int

datatype error = RangeError | TypeError

datatype jsval = Undefined | JBool bool

fun truthy :: "jsval \<Rightarrow> bool" where
  "truthy Undefined = False"
| "truthy (JBool b) = b"

subsection \<open>randomFromSeed\<close>

text \<open>
  \<^verbatim>\<open>seed += 0x6D2B79F5\<close> is an addition of numbers; the bit operators and
  \<^verbatim>\<open>Math.imul\<close> then work on the value modulo \<open>2 ^ 32\<close>.
\<close>

definition mulberry32 :: "int \<Rightarrow> real \<times> int" where
  "mulberry32 sd =
     (let sd' = sd + 1831565813;
          t0 = (word_of_int sd' :: 32 word);
          t1 = (t0 XOR drop_bit 15 t0) * (t0 OR 1);
          t2 = t1 XOR (t1 + (t1 XOR drop_bit 7 t1) * (t1 OR 61))
      in (real (unat (t2 XOR drop_bit 14 t2)) / 4294967296, sd'))"

text \<open>
  The function returned by \<^verbatim>\<open>randomFromSeed\<close>, with its defaults \<open>a = 1\<close> and
  \<open>b = 0\<close> passed by the caller: \<^verbatim>\<open>b && a\<close> is \<open>a\<close> when \<open>b\<close> is truthy (not zero)
  and \<open>b\<close> otherwise, \<^verbatim>\<open>b || a\<close> is \<open>b\<close> when \<open>b\<close> is truthy and \<open>a\<close> otherwise.
\<close>

definition rnd :: "real \<Rightarrow> real \<Rightarrow> int \<Rightarrow> real \<times> int" where
  "rnd a b sd =
     (let min_v = (if b \<noteq> 0 then a else b);
          max_v = (if b \<noteq> 0 then b else a);
          (u, sd') = mulberry32 sd
      in (u * (max_v - min_v) + min_v, sd'))"

subsection \<open>buildCollisionDetector\<close>

definition CLOCKWISE :: nat where "CLOCKWISE = 1"
definition ANTICLOCKWISE :: nat where "ANTICLOCKWISE = 2"
definition COLINEAR :: nat where "COLINEAR = 0"

definition lineOffscreen :: "env \<Rightarrow> line \<Rightarrow> bool" where
  "lineOffscreen e l = (\<not> isVisible e (px (p1 l)) (py (p1 l)))"

definition orientation :: "point \<Rightarrow> point \<Rightarrow> point \<Rightarrow> nat" where
  "orientation p q r =
     (let val = ((py q - py p) * (px r - px q)) - ((px q - px p) * (py r - py q))
      in if val > 0 then CLOCKWISE else if val < 0 then ANTICLOCKWISE else COLINEAR)"

definition onSegment :: "point \<Rightarrow> point \<Rightarrow> point \<Rightarrow> bool" where
  "onSegment p q r =
     (px q \<le> max (px p) (px r) \<and> px q \<ge> min (px p) (px r) \<and>
      py q \<le> max (py p) (py r) \<and> py q \<ge> min (py p) (py r))"

definition linesIntersect :: "line \<Rightarrow> line \<Rightarrow> bool" where
  "linesIntersect l1 l2 =
     (let o1 = orientation (p0 l1) (p1 l1) (p0 l2);
          o2 = orientation (p0 l1) (p1 l1) (p1 l2);
          o3 = orientation (p0 l2) (p1 l2) (p0 l1);
          o4 = orientation (p0 l2) (p1 l2) (p1 l1)
      in if o1 \<noteq> o2 \<and> o3 \<noteq> o4 then True
         else if o1 = COLINEAR \<and> onSegment (p0 l1) (p0 l2) (p1 l1) then True
         else if o2 = COLINEAR \<and> onSegment (p0 l1) (p1 l2) (p1 l1) then True
         else if o3 = COLINEAR \<and> onSegment (p0 l2) (p0 l1) (p1 l2) then True
         else if o4 = COLINEAR \<and> onSegment (p0 l2) (p1 l1) (p1 l2) then True
         else False)"

text \<open>
  The visitor that \<^verbatim>\<open>checkForCollisions\<close> hands to the traversal. It closes over
  \<^verbatim>\<open>line1\<close> and the variable \<^verbatim>\<open>foundCollision\<close>, which is the state passed
  along here; a bare \<^verbatim>\<open>return\<close> gives \<^verbatim>\<open>undefined\<close>.
\<close>

definition collision_visitor :: "line list \<Rightarrow> nat \<Rightarrow> nat \<Rightarrow> bool \<Rightarrow> jsval \<times> bool" where
  "collision_visitor h line1 line2 foundCollision =
     (if line1 = line2 \<or> parent (h ! line1) = Some line2 \<or> parent (h ! line2) = Some line1
      then (Undefined, foundCollision)
      else (let r = linesIntersect (h ! line1) (h ! line2) in (JBool r, r)))"

definition checkForCollisions ::
    "env \<Rightarrow> line list \<Rightarrow> nat \<Rightarrow> ((nat \<Rightarrow> bool \<Rightarrow> jsval \<times> bool) \<Rightarrow> bool \<Rightarrow> jsval \<times> bool) \<Rightarrow> bool" where
  "checkForCollisions e h line1 forEachLine =
     (if lineOffscreen e (h ! line1) then True
      else snd (forEachLine (collision_visitor h line1) False))"

subsection \<open>buildModel: lines\<close>

text \<open>The methods \<^verbatim>\<open>grow\<close> and \<^verbatim>\<open>clip\<close> of a line; \<^verbatim>\<open>growthRate\<close> is 1.\<close>

definition growthRate :: real where "growthRate = 1"

definition grow :: "config \<Rightarrow> line \<Rightarrow> int \<Rightarrow> line \<times> int" where
  "grow cfg l sd =
     (let l1 = l\<lparr>p1 := \<lparr>px = px (p1 l) + sin (angle l) * growthRate,
                        py = py (p1 l) + cos (angle l) * growthRate\<rparr>\<rparr>;
          l2 = l1\<lparr>steps := steps l1 + 1\<rparr>;
          (r1, sd1) = rnd 1 0 sd;
          l3 = l2\<lparr>split := r1 < pBifurcation cfg\<rparr>;
          (r2, sd2) = rnd 1 0 sd1
      in (if r2 < real (generation l3) * expiryThreshold cfg then l3\<lparr>expired := True\<rparr> else l3,
          sd2))"

definition clip :: "line \<Rightarrow> line" where
  "clip l = l\<lparr>p1 := \<lparr>px = px (p1 l) - sin (angle l) * growthRate,
                      py = py (p1 l) - cos (angle l) * growthRate\<rparr>\<rparr>"

text \<open>A method call on the line object at an address of the store.\<close>

definition line_grow :: "config \<Rightarrow> nat \<Rightarrow> model \<Rightarrow> model" where
  "line_grow cfg a m =
     (let (l, sd) = grow cfg (heap m ! a) (rng m)
      in m\<lparr>heap := (heap m)[a := l], rng := sd\<rparr>)"

text \<open>
  \<^verbatim>\<open>buildLine\<close> allocates the line at the next free address and returns that address.
  The object literal draws the tag first; then the counter is incremented and the new
  line grows once.
\<close>

definition buildLine :: "config \<Rightarrow> point \<Rightarrow> real \<Rightarrow> nat option \<Rightarrow> model \<Rightarrow> nat \<times> model" where
  "buildLine cfg p ang par m =
     (let (tag, sd1) = rnd 1 0 (rng m);
          l = \<lparr>p0 = p, p1 = p, angle = ang,
               generation = (case par of Some q \<Rightarrow> generation (heap m ! q) + 1 | None \<Rightarrow> 0),
               parent = par, active = True, split = False, expired = False, steps = 0,
               rnd_tag = tag\<rparr>;
          a = length (heap m);
          m1 = m\<lparr>heap := heap m @ [l], activeLineCount := activeLineCount m + 1, rng := sd1\<rparr>
      in (a, line_grow cfg a m1))"

subsection \<open>buildModel: seeds and the model\<close>

definition buildSeed :: "env \<Rightarrow> config \<Rightarrow> model \<Rightarrow> seed \<times> model" where
  "buildSeed e cfg m =
     (let (ang, sd1) = rnd 0 (pi * 2) (rng m);
          (x0, sd2) = rnd 0 (canvas_width e) sd1;
          (y0, sd3) = rnd 0 (canvas_height e) sd2;
          (a, m') = buildLine cfg \<lparr>px = x0, py = y0\<rparr> ang None (m\<lparr>rng := sd3\<rparr>)
      in (\<lparr>seed_angle = ang, lines = [a]\<rparr>, m'))"

text \<open>\<^verbatim>\<open>Array.prototype.some\<close> with a callback that may change the state it is given.\<close>

fun some_js :: "('a \<Rightarrow> 's \<Rightarrow> bool \<times> 's) \<Rightarrow> 'a list \<Rightarrow> 's \<Rightarrow> bool \<times> 's" where
  "some_js f [] s = (False, s)"
| "some_js f (v # vs) s = (case f v s of (True, s') \<Rightarrow> (True, s') | (False, s') \<Rightarrow> some_js f vs s')"

definition seeds_or_empty :: "model \<Rightarrow> seed list" where
  "seeds_or_empty m = (case seeds m of None \<Rightarrow> [] | Some ss \<Rightarrow> ss)"

text \<open>
  \<^verbatim>\<open>forEachLineUntilTrue\<close>: the visitor gets the line (its address) and returns a
  value whose truthiness the inner \<^verbatim>\<open>some\<close> tests. The body is an expression
  statement with no \<^verbatim>\<open>return\<close>, so the call's own value is \<^verbatim>\<open>undefined\<close>.
\<close>

definition forEachLineUntilTrue :: "model \<Rightarrow> (nat \<Rightarrow> 's \<Rightarrow> jsval \<times> 's) \<Rightarrow> 's \<Rightarrow> jsval \<times> 's" where
  "forEachLineUntilTrue m fn s =
     (let (_, s') =
        some_js (\<lambda>sd. some_js (\<lambda>a t. let (v, t') = fn a t in (truthy v, t')) (lines sd))
          (seeds_or_empty m) s
      in (Undefined, s'))"

text \<open>The body of the \<^verbatim>\<open>forEach\<close> callback in a seed's \<^verbatim>\<open>grow\<close>, for seed number \<open>i\<close>.\<close>

definition push_line :: "nat \<Rightarrow> nat \<Rightarrow> model \<Rightarrow> model" where
  "push_line i a m =
     m\<lparr>seeds := map_option (\<lambda>ss. ss[i := (ss ! i)\<lparr>lines := lines (ss ! i) @ [a]\<rparr>]) (seeds m)\<rparr>"

definition deactivate :: "nat \<Rightarrow> model \<Rightarrow> model" where
  "deactivate a m =
     m\<lparr>heap := (heap m)[a := (heap m ! a)\<lparr>active := False\<rparr>],
       activeLineCount := activeLineCount m - 1\<rparr>"

definition visit :: "env \<Rightarrow> config \<Rightarrow> nat \<Rightarrow> nat \<Rightarrow> model \<Rightarrow> model" where
  "visit e cfg i a m =
     (let m1 = line_grow cfg a m in
      if expired (heap m1 ! a) then deactivate a m1
      else if checkForCollisions e (heap m1) a (forEachLineUntilTrue m1)
      then deactivate a (m1\<lparr>heap := (heap m1)[a := clip (heap m1 ! a)]\<rparr>)
      else if split (heap m1 ! a)
      then (let m2 = m1\<lparr>heap := (heap m1)[a := (heap m1 ! a)\<lparr>split := False\<rparr>]\<rparr>;
                (r, sd) = rnd 1 0 (rng m2);
                newAngle = angle (heap m2 ! a) + pi / 2 * (if r < 0.5 then 1 else - 1);
                (c, m3) = buildLine cfg \<lparr>px = px (p1 (heap m2 ! a)), py = py (p1 (heap m2 ! a))\<rparr>
                            newAngle (Some a) (m2\<lparr>rng := sd\<rparr>)
            in push_line i c m3)
      else m1)"

text \<open>
  A seed's \<^verbatim>\<open>grow\<close>: \<^verbatim>\<open>filter\<close> builds the snapshot, a new array, and
  \<^verbatim>\<open>forEach\<close> runs over it.
\<close>

definition seed_grow :: "env \<Rightarrow> config \<Rightarrow> nat \<Rightarrow> model \<Rightarrow> model" where
  "seed_grow e cfg i m =
     fold (visit e cfg i) (filter (\<lambda>a. active (heap m ! a)) (lines (seeds_or_empty m ! i))) m"

text \<open>
  \<^verbatim>\<open>Array(config.seedCount).fill().map(buildSeed)\<close>: the \<^verbatim>\<open>Array\<close> constructor
  throws a RangeError unless its argument is an integer from 0 to \<open>2 ^ 32 - 1\<close>; then
  \<^verbatim>\<open>buildSeed\<close> runs once per element, in order.
\<close>

fun buildSeeds :: "env \<Rightarrow> config \<Rightarrow> nat \<Rightarrow> model \<Rightarrow> seed list \<times> model" where
  "buildSeeds e cfg 0 m = ([], m)"
| "buildSeeds e cfg (Suc n) m =
     (let (s, m1) = buildSeed e cfg m; (ss, m2) = buildSeeds e cfg n m1 in (s # ss, m2))"

definition generate :: "env \<Rightarrow> config \<Rightarrow> model \<Rightarrow> error + model" where
  "generate e cfg m =
     (if seedCount cfg < 0 \<or> seedCount cfg > 4294967295 then Inl RangeError
      else (let (ss, m') = buildSeeds e cfg (nat (seedCount cfg)) m in Inr (m'\<lparr>seeds := Some ss\<rparr>)))"

text \<open>The model's \<^verbatim>\<open>grow\<close>: \<^verbatim>\<open>seeds.forEach\<close> throws a TypeError while \<^verbatim>\<open>seeds\<close> is undefined.\<close>

definition model_grow :: "env \<Rightarrow> config \<Rightarrow> model \<Rightarrow> error + model" where
  "model_grow e cfg m =
     (case seeds m of
        None \<Rightarrow> Inl TypeError
      | Some ss \<Rightarrow> Inr (fold (seed_grow e cfg) [0..<length ss] m))"

definition isActive :: "model \<Rightarrow> bool" where
  "isActive m = (activeLineCount m > 0)"

text \<open>The state in which \<^verbatim>\<open>buildModel\<close> returns, for a generator made from \<open>sd\<close>.\<close>

definition init_model :: "int \<Rightarrow> model" where
  "init_model sd = \<lparr>heap = [], seeds = None, activeLineCount = 0, rng = sd\<rparr>"

subsection \<open>Notions used to state the properties\<close>

text \<open>The lines of the forest in traversal order: seed by seed, each seed's lines in order.\<close>

definition all_lines :: "model \<Rightarrow> nat list" where
  "all_lines m = concat (map lines (seeds_or_empty m))"

text \<open>A visitor that also records, in order, the lines it is called on.\<close>

definition traced :: "(nat \<Rightarrow> 's \<Rightarrow> jsval \<times> 's) \<Rightarrow> nat \<Rightarrow> 's \<times> nat list \<Rightarrow> jsval \<times> ('s \<times> nat list)" where
  "traced fn a = (\<lambda>(s, seen). let (v, s') = fn a s in (v, (s', seen @ [a])))"

text \<open>The elements of a list up to and including the first one that satisfies \<open>p\<close>.\<close>

fun upto_first :: "('a \<Rightarrow> bool) \<Rightarrow> 'a list \<Rightarrow> 'a list" where
  "upto_first p [] = []"
| "upto_first p (v # vs) = (if p v then [v] else v # upto_first p vs)"

text \<open>
  The lines that a collision check of line \<open>a\<close> leaves out: itself, its parent, its
  children.
\<close>

definition excluded :: "line list \<Rightarrow> nat \<Rightarrow> nat \<Rightarrow> bool" where
  "excluded h a b = (a = b \<or> parent (h ! a) = Some b \<or> parent (h ! b) = Some a)"

text \<open>A line with the given end points, its other fields taken from \<open>l\<close>.\<close>

definition segment :: "real \<Rightarrow> real \<Rightarrow> real \<Rightarrow> real \<Rightarrow> line \<Rightarrow> line" where
  "segment x0 y0 x1 y1 l = l\<lparr>p0 := \<lparr>px = x0, py = y0\<rparr>, p1 := \<lparr>px = x1, py = y1\<rparr>\<rparr>"

text \<open>The object that \<^verbatim>\<open>buildLine\<close> allocates, before its first \<^verbatim>\<open>grow\<close>.\<close>

definition fresh_line :: "point \<Rightarrow> real \<Rightarrow> nat option \<Rightarrow> model \<Rightarrow> line" where
  "fresh_line p ang par m =
     \<lparr>p0 = p, p1 = p, angle = ang,
      generation = (case par of Some q \<Rightarrow> generation (heap m ! q) + 1 | None \<Rightarrow> 0),
      parent = par, active = True, split = False, expired = False, steps = 0,
      rnd_tag = fst (rnd 1 0 (rng m))\<rparr>"

text \<open>Every line of the forest is in the store, and no line is listed twice.\<close>

definition forest_ok :: "model \<Rightarrow> bool" where
  "forest_ok m =
     (seeds m \<noteq> None \<and> distinct (all_lines m) \<and> (\<forall>a \<in> set (all_lines m). a < length (heap m)))"

text \<open>The lines of the forest whose active flag is set.\<close>

definition active_lines :: "model \<Rightarrow> nat list" where
  "active_lines m = filter (\<lambda>a. active (heap m ! a)) (all_lines m)"

text \<open>The counter agrees with the forest.\<close>

definition count_ok :: "model \<Rightarrow> bool" where
  "count_ok m = (activeLineCount m = int (length (active_lines m)))"

text \<open>
  What a run of the loop over the lines \<open>V\<close> does to the store: each line of \<open>V\<close>
  has grown once, the other old lines are as they were, and every new line has grown
  once, is active and is the child of a line of \<open>V\<close>.
\<close>

definition tick_rel :: "nat set \<Rightarrow> model \<Rightarrow> model \<Rightarrow> bool" where
  "tick_rel V m m' =
     (length (heap m) \<le> length (heap m') \<and>
      (\<forall>a < length (heap m). a \<notin> V \<longrightarrow> heap m' ! a = heap m ! a) \<and>
      (\<forall>a \<in> V. steps (heap m' ! a) = steps (heap m ! a) + 1) \<and>
      (\<forall>c. length (heap m) \<le> c \<and> c < length (heap m') \<longrightarrow>
         steps (heap m' ! c) = 1 \<and> active (heap m' ! c) \<and>
         (\<exists>a \<in> V. parent (heap m' ! c) = Some a)) \<and>
      set (all_lines m') = set (all_lines m) \<union> {length (heap m)..<length (heap m')})"

text \<open>
  Growing seed \<open>i\<close> leaves the other seeds as they were and only appends to the lines
  of seed \<open>i\<close>.
\<close>

definition seeds_rel :: "nat \<Rightarrow> model \<Rightarrow> model \<Rightarrow> bool" where
  "seeds_rel i m m' =
     (seeds m' \<noteq> None \<and> length (seeds_or_empty m') = length (seeds_or_empty m) \<and>
      (\<forall>j < length (seeds_or_empty m). j \<noteq> i \<longrightarrow> seeds_or_empty m' ! j = seeds_or_empty m ! j) \<and>
      (\<exists>ext. lines (seeds_or_empty m' ! i) = lines (seeds_or_empty m ! i) @ ext))"

text \<open>The active lines of seed \<open>i\<close>.\<close>

definition seed_active :: "model \<Rightarrow> nat \<Rightarrow> nat set" where
  "seed_active m i = {a \<in> set (lines (seeds_or_empty m ! i)). active (heap m ! a)}"

text \<open>
  Calls from outside, in sequence. A call that throws is taken to be caught by the
  caller; it has changed nothing when it throws, so the model is as it was before.
\<close>

datatype call = Generate | Grow

definition call_model :: "env \<Rightarrow> config \<Rightarrow> call \<Rightarrow> model \<Rightarrow> error + model" where
  "call_model e cfg c m = (case c of Generate \<Rightarrow> generate e cfg m | Grow \<Rightarrow> model_grow e cfg m)"

definition after_call :: "env \<Rightarrow> config \<Rightarrow> call \<Rightarrow> model \<Rightarrow> model" where
  "after_call e cfg c m = (case call_model e cfg c m of Inl er \<Rightarrow> m | Inr m' \<Rightarrow> m')"

definition calls :: "env \<Rightarrow> config \<Rightarrow> call list \<Rightarrow> model \<Rightarrow> model" where
  "calls e cfg cs m = fold (after_call e cfg) cs m"

subsection \<open>buildRandomConfig and createNewRender\<close>






subsection \<open>Concrete inputs\<close>

definition line0 :: line where
  "line0 = \<lparr>p0 = \<lparr>px = 0, py = 0\<rparr>, p1 = \<lparr>px = 0, py = 1\<rparr>, angle = 0, generation = 0,
     parent = None, active = True, split = False, expired = False, steps = 1, rnd_tag = 0\<rparr>"

text \<open>
  A forest of two seeds. Line 1 is a child of line 0 and lies on top of it; line 2, in
  the second seed, crosses both; line 3 is a root far from the others.
\<close>

definition forest_heap :: "line list" where
  "forest_heap =
     [segment 0 0 0 4 line0,
      (segment 0 4 0 2 line0)\<lparr>generation := 1, parent := Some 0\<rparr>,
      (segment (- 1) 3 1 3 line0)\<lparr>active := False\<rparr>,
      segment 7 7 8 8 line0]"

definition forest :: model where
  "forest = \<lparr>heap = forest_heap,
     seeds = Some [\<lparr>seed_angle = 0, lines = [0, 1]\<rparr>, \<lparr>seed_angle = 0, lines = [2, 3]\<rparr>],
     activeLineCount = 3, rng = 1\<rparr>"

definition screen :: env where
  "screen = \<lparr>canvas_width = 10, canvas_height = 10,
     isVisible = (\<lambda>u v. 0 \<le> u \<and> u \<le> 10 \<and> 0 \<le> v \<and> v \<le> 10)\<rparr>"

definition config0 :: config where
  "config0 = \<lparr>seedCount = 0, pBifurcation = 0.03, expiryThreshold = 0.0005\<rparr>"

text \<open>A configuration in which every growth step asks for a split and no line expires.\<close>

definition config1 :: config where
  "config1 = \<lparr>seedCount = 1, pBifurcation = 1, expiryThreshold = 0\<rparr>"

text \<open>A forest of one upright line in the middle of the screen.\<close>

definition forest1 :: model where
  "forest1 = \<lparr>heap = [segment 5 5 5 6 line0],
     seeds = Some [\<lparr>seed_angle = 0, lines = [0]\<rparr>], activeLineCount = 1, rng = 1\<rparr>"

section \<open>Properties\<close>

subsection \<open>The random draws\<close>







subsection \<open>The intersection test\<close>

lemmas geometry_defs = linesIntersect_def orientation_def onSegment_def segment_def
  CLOCKWISE_def ANTICLOCKWISE_def COLINEAR_def



subsection \<open>The traversal\<close>

lemma some_js_append:
  "some_js f (us @ vs) s = (case some_js f us s of (True, s') \<Rightarrow> (True, s') | (False, s') \<Rightarrow> some_js f vs s')"
  by (induction us arbitrary: s) (auto split: prod.splits bool.splits)

lemma some_js_concat:
  "some_js (\<lambda>sd. some_js f (lines sd)) ss s = some_js f (concat (map lines ss)) s"
  by (induction ss arbitrary: s) (auto simp: some_js_append split: prod.splits bool.splits)

lemma forEachLineUntilTrue_flat:
  "forEachLineUntilTrue m fn s =
     (Undefined, snd (some_js (\<lambda>a t. let (v, t') = fn a t in (truthy v, t')) (all_lines m) s))"
  by (simp add: forEachLineUntilTrue_def all_lines_def some_js_concat split_beta)

lemma some_js_traced:
  "some_js (\<lambda>a t. let (v, t') = traced (\<lambda>a s. (ret a, upd a s)) a t in (truthy v, t')) vs (s, seen) =
     (\<exists>a \<in> set vs. truthy (ret a),
      (fold upd (upto_first (\<lambda>a. truthy (ret a)) vs) s, seen @ upto_first (\<lambda>a. truthy (ret a)) vs))"
  by (induction vs arbitrary: s seen) (auto simp: traced_def)

lemma forEachLineUntilTrue_traced:
  "forEachLineUntilTrue m (traced (\<lambda>a s. (ret a, upd a s))) (s, []) =
     (Undefined,
      (fold upd (upto_first (\<lambda>a. truthy (ret a)) (all_lines m)) s,
       upto_first (\<lambda>a. truthy (ret a)) (all_lines m)))"
  unfolding forEachLineUntilTrue_flat some_js_traced by simp

text \<open>
  Claim C7, as the code has it. The visitor is called on the lines of the forest in
  order, seed by seed and line by line within a seed, up to and including the first
  line for which it returns a truthy value, and on no line after that one; the call
  itself returns \<^verbatim>\<open>undefined\<close> whatever the visitor returned.
\<close>

theorem forEachLineUntilTrue_order:
  "forEachLineUntilTrue m (traced (\<lambda>a s. (ret a, upd a s))) (s, []) =
     (Undefined,
      (fold upd (upto_first (\<lambda>a. truthy (ret a)) (all_lines m)) s,
       upto_first (\<lambda>a. truthy (ret a)) (all_lines m)))"
  by (rule forEachLineUntilTrue_traced)

theorem forEachLineUntilTrue_order_witness:
  "all_lines forest = [0, 1, 2, 3] \<and>
   forEachLineUntilTrue forest (traced (\<lambda>a s. (JBool (a = 2), Suc s))) (0, []) =
     (Undefined, (3, [0, 1, 2]))"
  using forEachLineUntilTrue_order [of forest "\<lambda>a. JBool (a = 2)" "\<lambda>a. Suc" 0]
  by (simp add: all_lines_def forest_def seeds_or_empty_def)

text \<open>
  Claim C7 as stated fails: on a forest of four lines, with a visitor that returns
  \<^verbatim>\<open>true\<close> on the first line, the traversal does not return \<^verbatim>\<open>true\<close>.
\<close>

theorem forEachLineUntilTrue_counterexample:
  "fst (forEachLineUntilTrue forest (\<lambda>a s. (JBool True, s)) ()) \<noteq> JBool True"
  by (simp add: forEachLineUntilTrue_def split_beta)

subsection \<open>The collision check\<close>

lemma some_js_pure:
  "some_js (\<lambda>a t. let (v, t') = (ret a, upd a t) in (truthy v, t')) vs s =
     (\<exists>a \<in> set vs. truthy (ret a), fold upd (upto_first (\<lambda>a. truthy (ret a)) vs) s)"
  by (induction vs arbitrary: s) auto

lemma collision_visitor_eq:
  "collision_visitor h a =
     (\<lambda>b s. (if excluded h a b then Undefined else JBool (linesIntersect (h ! a) (h ! b)),
             if excluded h a b then s else linesIntersect (h ! a) (h ! b)))"
  by (intro ext) (simp add: collision_visitor_def excluded_def Let_def)

lemma fold_foundCollision:
  "fold (\<lambda>b s. if excluded h a b then s else linesIntersect (h ! a) (h ! b))
        (upto_first (\<lambda>b. \<not> excluded h a b \<and> linesIntersect (h ! a) (h ! b)) vs) f =
     ((\<exists>b \<in> set vs. \<not> excluded h a b \<and> linesIntersect (h ! a) (h ! b)) \<or>
      (f \<and> (\<forall>b \<in> set vs. excluded h a b)))"
  by (induction vs arbitrary: f) auto

lemma truthy_collision:
  "truthy (if excluded h a b then Undefined else JBool (linesIntersect (h ! a) (h ! b))) =
     (\<not> excluded h a b \<and> linesIntersect (h ! a) (h ! b))"
  by simp

lemma scan_result:
  "snd (forEachLineUntilTrue m (collision_visitor (heap m) a) False) =
     (\<exists>b \<in> set (all_lines m).
        \<not> excluded (heap m) a b \<and> linesIntersect (heap m ! a) (heap m ! b))"
  unfolding forEachLineUntilTrue_flat collision_visitor_eq snd_conv some_js_pure truthy_collision
  by (simp add: fold_foundCollision)

text \<open>
  Claim C5. When the tip of the line is outside the viewport the check is true whatever
  traversal it is given, so the forest is not consulted. Otherwise its result is true
  exactly when some line of the forest, active or not, other than the line itself, its
  parent and its children, intersects it; and the lines its visitor is called on are
  those of the forest, in order, up to and including the first such line.
\<close>

theorem checkForCollisions_spec:
  "(lineOffscreen e (heap m ! a) \<longrightarrow> checkForCollisions e (heap m) a trav) \<and>
   (\<not> lineOffscreen e (heap m ! a) \<longrightarrow>
      checkForCollisions e (heap m) a (forEachLineUntilTrue m) =
        (\<exists>b \<in> set (all_lines m).
           \<not> excluded (heap m) a b \<and> linesIntersect (heap m ! a) (heap m ! b)) \<and>
      snd (snd (forEachLineUntilTrue m (traced (collision_visitor (heap m) a)) (False, []))) =
        upto_first (\<lambda>b. \<not> excluded (heap m) a b \<and> linesIntersect (heap m ! a) (heap m ! b))
          (all_lines m))"
proof -
  have "lineOffscreen e (heap m ! a) \<longrightarrow> checkForCollisions e (heap m) a trav"
    by (simp add: checkForCollisions_def)
  moreover have "\<not> lineOffscreen e (heap m ! a) \<longrightarrow>
      checkForCollisions e (heap m) a (forEachLineUntilTrue m) =
        (\<exists>b \<in> set (all_lines m).
           \<not> excluded (heap m) a b \<and> linesIntersect (heap m ! a) (heap m ! b))"
    by (simp add: checkForCollisions_def scan_result)
  moreover have "snd (snd (forEachLineUntilTrue m (traced (collision_visitor (heap m) a)) (False, []))) =
        upto_first (\<lambda>b. \<not> excluded (heap m) a b \<and> linesIntersect (heap m ! a) (heap m ! b))
          (all_lines m)"
    unfolding collision_visitor_eq forEachLineUntilTrue_traced truthy_collision by simp
  ultimately show ?thesis by blast
qed

lemmas forest_defs = forest_def forest_heap_def screen_def line0_def all_lines_def
  seeds_or_empty_def excluded_def lineOffscreen_def

text \<open>
  In the forest above, line 0 is on screen; its child, line 1, lies on it and is
  skipped; line 2 crosses it and ends the scan. A line whose tip is off screen collides
  whatever the traversal.
\<close>

theorem checkForCollisions_spec_witness:
  "\<not> lineOffscreen screen (heap forest ! 0) \<and>
   checkForCollisions screen (heap forest) 0 (forEachLineUntilTrue forest) \<and>
   linesIntersect (heap forest ! 0) (heap forest ! 1) \<and>
   snd (snd (forEachLineUntilTrue forest (traced (collision_visitor (heap forest) 0)) (False, [])))
     = [0, 1, 2] \<and>
   lineOffscreen screen (heap (forest\<lparr>heap := [segment 0 0 0 11 line0]\<rparr>) ! 0) \<and>
   checkForCollisions screen (heap (forest\<lparr>heap := [segment 0 0 0 11 line0]\<rparr>)) 0 (\<lambda>fn s. (Undefined, s))"
  using checkForCollisions_spec [of screen forest 0 "\<lambda>fn s. (Undefined, s)"]
    checkForCollisions_spec [of screen "forest\<lparr>heap := [segment 0 0 0 11 line0]\<rparr>" 0
      "\<lambda>fn s. (Undefined, s)"]
  by (simp add: forest_defs geometry_defs)

subsection \<open>A degenerate seed count\<close>

text \<open>
  Claim C9, as the code has it. With \<open>seedCount = 0\<close>, \<^verbatim>\<open>generate\<close> succeeds,
  the forest is empty and \<^verbatim>\<open>isActive\<close> is false on a new model. With a negative
  \<open>seedCount\<close> the \<^verbatim>\<open>Array\<close> constructor throws a RangeError; the model is left
  as it was, so \<^verbatim>\<open>isActive\<close> is false on a new model there too.
\<close>

theorem generate_degenerate:
  "(seedCount cfg = 0 \<longrightarrow>
      generate e cfg (init_model sd) = Inr ((init_model sd)\<lparr>seeds := Some []\<rparr>) \<and>
      \<not> isActive ((init_model sd)\<lparr>seeds := Some []\<rparr>)) \<and>
   (seedCount cfg < 0 \<longrightarrow>
      generate e cfg (init_model sd) = Inl RangeError \<and> \<not> isActive (init_model sd))"
  by (simp add: generate_def isActive_def init_model_def)

theorem generate_degenerate_witness:
  "seedCount config0 = 0 \<and>
   generate screen config0 (init_model 1) = Inr ((init_model 1)\<lparr>seeds := Some []\<rparr>) \<and>
   seedCount (config0\<lparr>seedCount := - 1\<rparr>) < 0 \<and>
   generate screen (config0\<lparr>seedCount := - 1\<rparr>) (init_model 1) = Inl RangeError"
  using generate_degenerate [of config0 screen 1]
    generate_degenerate [of "config0\<lparr>seedCount := - 1\<rparr>" screen 1]
  by (simp add: config0_def)

text \<open>
  Claim C9 as stated fails: with \<open>seedCount = - 1\<close>, \<^verbatim>\<open>generate\<close> does not succeed.
\<close>

theorem generate_degenerate_counterexample:
  "seedCount (config0\<lparr>seedCount := - 1\<rparr>) \<le> 0 \<and>
   generate screen (config0\<lparr>seedCount := - 1\<rparr>) (init_model 1) = Inl RangeError"
  by (simp add: generate_def config0_def)

subsection \<open>One tick\<close>

lemma grow_fields [simp]:
  "steps (fst (grow cfg l sd)) = steps l + 1"
  "active (fst (grow cfg l sd)) = active l"
  "parent (fst (grow cfg l sd)) = parent l"
  "generation (fst (grow cfg l sd)) = generation l"
  "angle (fst (grow cfg l sd)) = angle l"
  "p0 (fst (grow cfg l sd)) = p0 l"
  "rnd_tag (fst (grow cfg l sd)) = rnd_tag l"
  "p1 (fst (grow cfg l sd)) = \<lparr>px = px (p1 l) + sin (angle l), py = py (p1 l) + cos (angle l)\<rparr>"
  by (simp_all add: grow_def Let_def split_beta growthRate_def)

lemma line_grow_fields [simp]:
  "heap (line_grow cfg a m) = (heap m)[a := fst (grow cfg (heap m ! a) (rng m))]"
  "seeds (line_grow cfg a m) = seeds m"
  "activeLineCount (line_grow cfg a m) = activeLineCount m"
  "rng (line_grow cfg a m) = snd (grow cfg (heap m ! a) (rng m))"
  by (simp_all add: line_grow_def split_beta)

lemma buildLine_fields [simp]:
  "fst (buildLine cfg p ang par m) = length (heap m)"
  "heap (snd (buildLine cfg p ang par m)) =
     heap m @ [fst (grow cfg (fresh_line p ang par m) (snd (rnd 1 0 (rng m))))]"
  "seeds (snd (buildLine cfg p ang par m)) = seeds m"
  "activeLineCount (snd (buildLine cfg p ang par m)) = activeLineCount m + 1"
  "rng (snd (buildLine cfg p ang par m)) = snd (grow cfg (fresh_line p ang par m) (snd (rnd 1 0 (rng m))))"
  by (simp_all add: buildLine_def fresh_line_def Let_def split_beta)

lemma fresh_line_fields [simp]:
  "steps (fresh_line p ang par m) = 0"
  "active (fresh_line p ang par m)"
  "parent (fresh_line p ang par m) = par"
  "p0 (fresh_line p ang par m) = p"
  "p1 (fresh_line p ang par m) = p"
  "angle (fresh_line p ang par m) = ang"
  "generation (fresh_line p ang par m) = (case par of Some q \<Rightarrow> generation (heap m ! q) + 1 | None \<Rightarrow> 0)"
  by (simp_all add: fresh_line_def)

lemma push_line_fields [simp]:
  "heap (push_line i c m) = heap m"
  "activeLineCount (push_line i c m) = activeLineCount m"
  "rng (push_line i c m) = rng m"
  by (simp_all add: push_line_def)

lemma deactivate_fields [simp]:
  "heap (deactivate a m) = (heap m)[a := (heap m ! a)\<lparr>active := False\<rparr>]"
  "seeds (deactivate a m) = seeds m"
  "activeLineCount (deactivate a m) = activeLineCount m - 1"
  "rng (deactivate a m) = rng m"
  by (simp_all add: deactivate_def)

lemma visit_summary:
  assumes "a < length (heap m)"
  shows "\<exists>l'. steps l' = steps (heap m ! a) + 1 \<and> parent l' = parent (heap m ! a) \<and>
           generation l' = generation (heap m ! a) \<and> angle l' = angle (heap m ! a) \<and>
           p0 l' = p0 (heap m ! a) \<and>
     ((heap (visit e cfg i a m) = (heap m)[a := l'] \<and> seeds (visit e cfg i a m) = seeds m \<and>
       \<not> active l' \<and> activeLineCount (visit e cfg i a m) = activeLineCount m - 1) \<or>
      (heap (visit e cfg i a m) = (heap m)[a := l'] \<and> seeds (visit e cfg i a m) = seeds m \<and>
       active l' = active (heap m ! a) \<and> activeLineCount (visit e cfg i a m) = activeLineCount m) \<or>
      (\<exists>c. heap (visit e cfg i a m) = (heap m)[a := l'] @ [c] \<and>
           seeds (visit e cfg i a m) = seeds (push_line i (length (heap m)) m) \<and>
           active l' = active (heap m ! a) \<and>
           activeLineCount (visit e cfg i a m) = activeLineCount m + 1 \<and>
           steps c = 1 \<and> active c \<and> parent c = Some a \<and> generation c = generation (heap m ! a) + 1))"
proof -
  define m1 where "m1 = line_grow cfg a m"
  define l1 where "l1 = heap m1 ! a"
  have l1: "l1 = fst (grow cfg (heap m ! a) (rng m))"
    using assms by (simp add: l1_def m1_def)
  have h1: "heap m1 = (heap m)[a := l1]" by (simp add: m1_def l1)
  have len1: "a < length (heap m1)" using assms by (simp add: h1)
  consider (ex) "expired l1"
    | (col) "\<not> expired l1" "checkForCollisions e (heap m1) a (forEachLineUntilTrue m1)"
    | (spl) "\<not> expired l1" "\<not> checkForCollisions e (heap m1) a (forEachLineUntilTrue m1)" "split l1"
    | (non) "\<not> expired l1" "\<not> checkForCollisions e (heap m1) a (forEachLineUntilTrue m1)" "\<not> split l1"
    by blast
  then show ?thesis
  proof cases
    case ex
    then have v: "visit e cfg i a m = deactivate a m1"
      by (simp add: visit_def Let_def m1_def [symmetric] l1_def [symmetric])
    show ?thesis
      apply (rule exI [of _ "l1\<lparr>active := False\<rparr>"])
      using assms by (simp add: v h1 l1 m1_def)
  next
    case col
    then have v: "visit e cfg i a m = deactivate a (m1\<lparr>heap := (heap m1)[a := clip l1]\<rparr>)"
      by (simp add: visit_def Let_def m1_def [symmetric] l1_def [symmetric])
    show ?thesis
      apply (rule exI [of _ "(clip l1)\<lparr>active := False\<rparr>"])
      using assms by (simp add: v h1 l1 m1_def clip_def)
  next
    case non
    then have v: "visit e cfg i a m = m1"
      by (simp add: visit_def Let_def m1_def [symmetric] l1_def [symmetric])
    show ?thesis
      apply (rule exI [of _ l1])
      using assms by (simp add: v h1 l1 m1_def)
  next
    case spl
    define m2 where "m2 = m1\<lparr>heap := (heap m1)[a := l1\<lparr>split := False\<rparr>]\<rparr>"
    define m2' where "m2' = m2\<lparr>rng := snd (rnd 1 0 (rng m2))\<rparr>"
    define ang where "ang = angle (heap m2 ! a) + pi / 2 * (if fst (rnd 1 0 (rng m2)) < 0.5 then 1 else - 1)"
    define pt where "pt = \<lparr>px = px (p1 (heap m2 ! a)), py = py (p1 (heap m2 ! a))\<rparr>"
    from spl have v: "visit e cfg i a m = push_line i (fst (buildLine cfg pt ang (Some a) m2'))
        (snd (buildLine cfg pt ang (Some a) m2'))"
      by (simp add: visit_def Let_def m1_def [symmetric] l1_def [symmetric] m2_def [symmetric]
          split_beta m2'_def ang_def pt_def)
    have h2: "heap m2' = (heap m)[a := l1\<lparr>split := False\<rparr>]" by (simp add: m2'_def m2_def h1)
    have s2: "seeds m2' = seeds m" by (simp add: m2'_def m2_def m1_def)
    have c2: "activeLineCount m2' = activeLineCount m" by (simp add: m2'_def m2_def m1_def)
    show ?thesis
      apply (rule exI [of _ "l1\<lparr>split := False\<rparr>"])
      using assms by (simp add: v h2 l1 push_line_def s2 c2)
  qed
qed

lemma tick_rel_refl: "tick_rel {} m m"
  by (simp add: tick_rel_def)

lemma tick_rel_trans:
  assumes r1: "tick_rel V1 m m1" and r2: "tick_rel V2 m1 m2"
    and dj: "V1 \<inter> V2 = {}" and sub: "V1 \<union> V2 \<subseteq> {..<length (heap m)}"
  shows "tick_rel (V1 \<union> V2) m m2"
proof -
  have len: "length (heap m) \<le> length (heap m1)" "length (heap m1) \<le> length (heap m2)"
    using r1 r2 by (simp_all add: tick_rel_def)
  have same1: "\<And>a. a < length (heap m) \<Longrightarrow> a \<notin> V1 \<Longrightarrow> heap m1 ! a = heap m ! a"
    using r1 by (simp add: tick_rel_def)
  have same2: "\<And>a. a < length (heap m1) \<Longrightarrow> a \<notin> V2 \<Longrightarrow> heap m2 ! a = heap m1 ! a"
    using r2 by (simp add: tick_rel_def)
  have st1: "\<And>a. a \<in> V1 \<Longrightarrow> steps (heap m1 ! a) = steps (heap m ! a) + 1"
    using r1 by (simp add: tick_rel_def)
  have st2: "\<And>a. a \<in> V2 \<Longrightarrow> steps (heap m2 ! a) = steps (heap m1 ! a) + 1"
    using r2 by (simp add: tick_rel_def)
  have new1: "\<And>c. length (heap m) \<le> c \<Longrightarrow> c < length (heap m1) \<Longrightarrow>
      steps (heap m1 ! c) = 1 \<and> active (heap m1 ! c) \<and> (\<exists>a \<in> V1. parent (heap m1 ! c) = Some a)"
    using r1 by (simp add: tick_rel_def)
  have new2: "\<And>c. length (heap m1) \<le> c \<Longrightarrow> c < length (heap m2) \<Longrightarrow>
      steps (heap m2 ! c) = 1 \<and> active (heap m2 ! c) \<and> (\<exists>a \<in> V2. parent (heap m2 ! c) = Some a)"
    using r2 by (simp add: tick_rel_def)
  have al1: "set (all_lines m1) = set (all_lines m) \<union> {length (heap m)..<length (heap m1)}"
    using r1 by (simp add: tick_rel_def)
  have al2: "set (all_lines m2) = set (all_lines m1) \<union> {length (heap m1)..<length (heap m2)}"
    using r2 by (simp add: tick_rel_def)
  have A: "\<forall>a < length (heap m). a \<notin> V1 \<union> V2 \<longrightarrow> heap m2 ! a = heap m ! a"
    using same1 same2 len by auto
  have B: "\<forall>a \<in> V1 \<union> V2. steps (heap m2 ! a) = steps (heap m ! a) + 1"
  proof
    fix a assume a: "a \<in> V1 \<union> V2"
    then have alen: "a < length (heap m)" using sub by auto
    show "steps (heap m2 ! a) = steps (heap m ! a) + 1"
    proof (cases "a \<in> V1")
      case True
      then have "a \<notin> V2" using dj by auto
      then have "heap m2 ! a = heap m1 ! a" using same2 alen len by simp
      then show ?thesis using st1 [OF True] by simp
    next
      case False
      then have a2: "a \<in> V2" using a by simp
      have "heap m1 ! a = heap m ! a" using same1 alen False by simp
      then show ?thesis using st2 [OF a2] by simp
    qed
  qed
  have C: "\<forall>c. length (heap m) \<le> c \<and> c < length (heap m2) \<longrightarrow>
         steps (heap m2 ! c) = 1 \<and> active (heap m2 ! c) \<and>
         (\<exists>a \<in> V1 \<union> V2. parent (heap m2 ! c) = Some a)"
  proof (intro allI impI, elim conjE)
    fix c assume c: "length (heap m) \<le> c" "c < length (heap m2)"
    show "steps (heap m2 ! c) = 1 \<and> active (heap m2 ! c) \<and>
         (\<exists>a \<in> V1 \<union> V2. parent (heap m2 ! c) = Some a)"
    proof (cases "c < length (heap m1)")
      case True
      have "c \<notin> V2" using sub c by auto
      then have "heap m2 ! c = heap m1 ! c" using same2 True by simp
      then show ?thesis using new1 [OF c(1) True] by auto
    next
      case False
      then show ?thesis using new2 [of c] c by auto
    qed
  qed
  have D: "set (all_lines m2) = set (all_lines m) \<union> {length (heap m)..<length (heap m2)}"
    using al1 al2 len by auto
  show ?thesis unfolding tick_rel_def using len A B C D by simp
qed

lemma concat_lines_update:
  assumes "i < length ss"
  shows "concat (map lines (ss[i := (ss ! i)\<lparr>lines := lines (ss ! i) @ [c]\<rparr>])) =
     concat (map lines (take i ss)) @ (lines (ss ! i) @ [c]) @ concat (map lines (drop (Suc i) ss))"
    and "concat (map lines ss) =
     concat (map lines (take i ss)) @ lines (ss ! i) @ concat (map lines (drop (Suc i) ss))"
proof -
  show "concat (map lines (ss[i := (ss ! i)\<lparr>lines := lines (ss ! i) @ [c]\<rparr>])) =
     concat (map lines (take i ss)) @ (lines (ss ! i) @ [c]) @ concat (map lines (drop (Suc i) ss))"
    using assms by (simp add: upd_conv_take_nth_drop)
  have "ss = take i ss @ ss ! i # drop (Suc i) ss"
    using assms by (simp add: id_take_nth_drop [symmetric])
  then have "concat (map lines ss) = concat (map lines (take i ss @ ss ! i # drop (Suc i) ss))"
    by simp
  then show "concat (map lines ss) =
     concat (map lines (take i ss)) @ lines (ss ! i) @ concat (map lines (drop (Suc i) ss))"
    by simp
qed

lemma seed_lines_subset:
  assumes "i < length (seeds_or_empty m)"
  shows "set (lines (seeds_or_empty m ! i)) \<subseteq> set (all_lines m)"
proof -
  have "seeds_or_empty m ! i \<in> set (seeds_or_empty m)" using assms by (rule nth_mem)
  then show ?thesis by (auto simp: all_lines_def)
qed

lemma seed_lines_disjoint:
  assumes "distinct (all_lines m)" "i < length (seeds_or_empty m)" "j < length (seeds_or_empty m)"
    "i \<noteq> j"
  shows "set (lines (seeds_or_empty m ! i)) \<inter> set (lines (seeds_or_empty m ! j)) = {}"
proof -
  define ss where "ss = seeds_or_empty m"
  have d: "distinct (concat (map lines ss))" using assms(1) by (simp add: all_lines_def ss_def)
  have "set (lines (ss ! i)) \<inter> set (lines (ss ! j)) = {}" if "i < j" "j < length ss" for i j
  proof -
    have i: "i < length ss" using that by simp
    have "j - Suc i < length (drop (Suc i) ss)" using that by simp
    moreover have "drop (Suc i) ss ! (j - Suc i) = ss ! j" using that by simp
    ultimately have "ss ! j \<in> set (drop (Suc i) ss)" by (metis nth_mem)
    then have "set (lines (ss ! j)) \<subseteq> set (concat (map lines (drop (Suc i) ss)))" by auto
    moreover have "set (lines (ss ! i)) \<inter> set (concat (map lines (drop (Suc i) ss))) = {}"
      using d concat_lines_update(2) [OF i] by (metis distinct_append)
    ultimately show ?thesis by blast
  qed
  from this [of i j] this [of j i] assms show ?thesis
    unfolding ss_def [symmetric] by (cases "i < j") (auto simp: not_less)
qed

lemma push_line_seeds:
  assumes "seeds m \<noteq> None" "i < length (seeds_or_empty m)"
  shows "seeds (push_line i c m) \<noteq> None"
    and "length (seeds_or_empty (push_line i c m)) = length (seeds_or_empty m)"
    and "\<And>j. j < length (seeds_or_empty m) \<Longrightarrow> j \<noteq> i \<Longrightarrow>
           seeds_or_empty (push_line i c m) ! j = seeds_or_empty m ! j"
    and "lines (seeds_or_empty (push_line i c m) ! i) = lines (seeds_or_empty m ! i) @ [c]"
    and "set (all_lines (push_line i c m)) = insert c (set (all_lines m))"
    and "distinct (all_lines (push_line i c m)) \<longleftrightarrow> distinct (all_lines m) \<and> c \<notin> set (all_lines m)"
    and "length (filter P (all_lines (push_line i c m))) =
           length (filter P (all_lines m)) + (if P c then 1 else 0)"
proof -
  obtain ss where ss: "seeds m = Some ss" using assms(1) by auto
  have i: "i < length ss" using assms(2) ss by (simp add: seeds_or_empty_def)
  have so: "seeds_or_empty m = ss" using ss by (simp add: seeds_or_empty_def)
  have sp: "seeds_or_empty (push_line i c m) = ss[i := (ss ! i)\<lparr>lines := lines (ss ! i) @ [c]\<rparr>]"
    using ss by (simp add: push_line_def seeds_or_empty_def)
  show "seeds (push_line i c m) \<noteq> None" using ss by (simp add: push_line_def)
  show "length (seeds_or_empty (push_line i c m)) = length (seeds_or_empty m)"
    by (simp add: sp so)
  show "\<And>j. j < length (seeds_or_empty m) \<Longrightarrow> j \<noteq> i \<Longrightarrow>
           seeds_or_empty (push_line i c m) ! j = seeds_or_empty m ! j"
    by (simp add: sp so)
  show "lines (seeds_or_empty (push_line i c m) ! i) = lines (seeds_or_empty m ! i) @ [c]"
    using i by (simp add: sp so)
  note dec = concat_lines_update(1) [OF i, of c] concat_lines_update(2) [OF i]
  show "set (all_lines (push_line i c m)) = insert c (set (all_lines m))"
    unfolding all_lines_def sp so dec by auto
  show "distinct (all_lines (push_line i c m)) \<longleftrightarrow> distinct (all_lines m) \<and> c \<notin> set (all_lines m)"
    unfolding all_lines_def sp so dec by auto
  show "length (filter P (all_lines (push_line i c m))) =
           length (filter P (all_lines m)) + (if P c then 1 else 0)"
    unfolding all_lines_def sp so dec by simp
qed

lemma all_lines_cong: "seeds m' = seeds m \<Longrightarrow> all_lines m' = all_lines m"
  by (simp add: all_lines_def seeds_or_empty_def)

lemma filter_active_update:
  assumes "distinct vs" "a \<in> set vs" "a < length h"
  shows "length (filter (\<lambda>b. active (h[a := l] ! b)) vs) + (if active (h ! a) then 1 else 0) =
         length (filter (\<lambda>b. active (h ! b)) vs) + (if active l then 1 else 0)"
  using assms
proof (induction vs)
  case Nil
  then show ?case by simp
next
  case (Cons v vs)
  show ?case
  proof (cases "v = a")
    case True
    then have "a \<notin> set vs" using Cons.prems by simp
    then have "\<And>b. b \<in> set vs \<Longrightarrow> h[a := l] ! b = h ! b"
      by (metis nth_list_update_neq)
    then have "filter (\<lambda>b. active (h[a := l] ! b)) vs = filter (\<lambda>b. active (h ! b)) vs"
      by (simp cong: filter_cong)
    then show ?thesis using True Cons.prems by simp
  next
    case False
    then have "a \<in> set vs" "distinct vs" using Cons.prems by auto
    from Cons.IH [OF this(2) this(1) Cons.prems(3)] False show ?thesis by simp
  qed
qed

lemma filter_active_append:
  assumes "\<forall>b \<in> set vs. b < length h"
  shows "filter (\<lambda>b. active ((h @ [c]) ! b)) vs = filter (\<lambda>b. active (h ! b)) vs"
  using assms by (intro filter_cong) (auto simp: nth_append)

lemma visit_step:
  assumes ok: "forest_ok m" and i: "i < length (seeds_or_empty m)"
    and a: "a \<in> set (lines (seeds_or_empty m ! i))"
  shows "forest_ok (visit e cfg i a m)"
    and "tick_rel {a} m (visit e cfg i a m)"
    and "seeds_rel i m (visit e cfg i a m)"
    and "count_ok m \<Longrightarrow> active (heap m ! a) \<Longrightarrow> count_ok (visit e cfg i a m)"
proof -
  define m' where "m' = visit e cfg i a m"
  define h where "h = heap m"
  have sn: "seeds m \<noteq> None" and dist: "distinct (all_lines m)"
    and bound: "\<And>b. b \<in> set (all_lines m) \<Longrightarrow> b < length h"
    using ok by (simp_all add: forest_ok_def h_def)
  have a_all: "a \<in> set (all_lines m)" using seed_lines_subset [OF i] a by blast
  have alen: "a < length h" using bound a_all by simp
  from visit_summary [of a m e cfg i] alen
  obtain l' where st: "steps l' = steps (h ! a) + 1"
    and cases: "(heap m' = h[a := l'] \<and> seeds m' = seeds m \<and>
       \<not> active l' \<and> activeLineCount m' = activeLineCount m - 1) \<or>
      (heap m' = h[a := l'] \<and> seeds m' = seeds m \<and>
       active l' = active (h ! a) \<and> activeLineCount m' = activeLineCount m) \<or>
      (\<exists>c. heap m' = h[a := l'] @ [c] \<and>
           seeds m' = seeds (push_line i (length h) m) \<and>
           active l' = active (h ! a) \<and>
           activeLineCount m' = activeLineCount m + 1 \<and>
           steps c = 1 \<and> active c \<and> parent c = Some a \<and> generation c = generation (h ! a) + 1)"
    unfolding m'_def h_def by blast
  have upd: "length (filter (\<lambda>b. active (h[a := l'] ! b)) (all_lines m)) + (if active (h ! a) then 1 else 0) =
         length (filter (\<lambda>b. active (h ! b)) (all_lines m)) + (if active l' then 1 else 0)"
    by (rule filter_active_update [OF dist a_all alen])
  have "forest_ok m' \<and> tick_rel {a} m m' \<and> seeds_rel i m m' \<and>
     (count_ok m \<longrightarrow> active (heap m ! a) \<longrightarrow> count_ok m')"
  proof -
    consider (same) "heap m' = h[a := l']" "seeds m' = seeds m"
        "(\<not> active l' \<and> activeLineCount m' = activeLineCount m - 1) \<or>
         (active l' = active (h ! a) \<and> activeLineCount m' = activeLineCount m)"
      | (child) c where "heap m' = h[a := l'] @ [c]" "seeds m' = seeds (push_line i (length h) m)"
        "active l' = active (h ! a)" "activeLineCount m' = activeLineCount m + 1"
        "steps c = 1" "active c" "parent c = Some a"
      using cases by blast
    then show ?thesis
    proof cases
      case same
      have al: "all_lines m' = all_lines m" using same(2) by (rule all_lines_cong)
      have so: "seeds_or_empty m' = seeds_or_empty m" using same(2) by (simp add: seeds_or_empty_def)
      have F: "forest_ok m'"
        using sn dist bound by (simp add: forest_ok_def al same h_def [symmetric])
      have T: "tick_rel {a} m m'"
        using alen st by (auto simp add: tick_rel_def al same h_def [symmetric])
      have S: "seeds_rel i m m'"
        using sn by (simp add: seeds_rel_def so same)
      have C: "count_ok m \<longrightarrow> active (heap m ! a) \<longrightarrow> count_ok m'"
        using upd same(3)
        by (auto simp add: count_ok_def active_lines_def al same(1) h_def [symmetric])
      from F T S C show ?thesis by blast
    next
      case child
      define mp where "mp = push_line i (length h) m"
      have al: "all_lines m' = all_lines mp" using child(2) unfolding mp_def by (rule all_lines_cong)
      have so: "seeds_or_empty m' = seeds_or_empty mp"
        using child(2) by (simp add: seeds_or_empty_def mp_def)
      note ps = push_line_seeds [OF sn i, where c = "length h", folded mp_def]
      have fresh: "length h \<notin> set (all_lines m)" using bound by blast
      have F: "forest_ok m'"
      proof -
        have "seeds m' \<noteq> None" using child(2) ps(1) by (simp add: mp_def)
        moreover have "distinct (all_lines m')" using ps(6) dist fresh by (simp add: al)
        moreover have "\<forall>b \<in> set (all_lines m'). b < length (heap m')"
          using ps(5) bound by (auto simp: al child(1) less_Suc_eq)
        ultimately show ?thesis by (simp add: forest_ok_def)
      qed
      have T: "tick_rel {a} m m'"
      proof -
        have "\<forall>b < length h. b \<notin> {a} \<longrightarrow> heap m' ! b = h ! b"
          by (simp add: child(1) nth_append)
        moreover have "steps (heap m' ! a) = steps (h ! a) + 1"
          using alen st by (simp add: child(1) nth_append)
        moreover have "\<forall>c'. length h \<le> c' \<and> c' < length (heap m') \<longrightarrow>
           steps (heap m' ! c') = 1 \<and> active (heap m' ! c') \<and> (\<exists>b \<in> {a}. parent (heap m' ! c') = Some b)"
        proof (intro allI impI)
          fix c' assume "length h \<le> c' \<and> c' < length (heap m')"
          then have "c' = length h" by (simp add: child(1))
          then have "heap m' ! c' = c" by (simp add: child(1) nth_append)
          then show "steps (heap m' ! c') = 1 \<and> active (heap m' ! c') \<and>
              (\<exists>b \<in> {a}. parent (heap m' ! c') = Some b)"
            using child by simp
        qed
        moreover have "set (all_lines m') = set (all_lines m) \<union> {length h..<length (heap m')}"
          using ps(5) by (auto simp: al child(1))
        moreover have "length h \<le> length (heap m')" by (simp add: child(1))
        ultimately show ?thesis by (simp add: tick_rel_def h_def [symmetric])
      qed
      have S: "seeds_rel i m m'"
        using ps(1) ps(2) ps(3) ps(4) child(2) by (simp add: seeds_rel_def so mp_def)
      have C: "count_ok m \<longrightarrow> active (heap m ! a) \<longrightarrow> count_ok m'"
      proof (intro impI)
        assume c: "count_ok m" and "active (heap m ! a)"
        have "length (filter (\<lambda>b. active (heap m' ! b)) (all_lines mp)) =
              length (filter (\<lambda>b. active (heap m' ! b)) (all_lines m)) +
                (if active (heap m' ! length h) then 1 else 0)"
          by (rule ps(7))
        moreover have "heap m' ! length h = c" by (simp add: child(1) nth_append)
        moreover have "filter (\<lambda>b. active (heap m' ! b)) (all_lines m) =
              filter (\<lambda>b. active (h[a := l'] ! b)) (all_lines m)"
          unfolding child(1) by (rule filter_active_append) (simp add: bound)
        ultimately have "length (filter (\<lambda>b. active (heap m' ! b)) (all_lines m')) =
              length (filter (\<lambda>b. active (h ! b)) (all_lines m)) + 1"
          using upd child(3) child(6) by (simp add: al)
        then show "count_ok m'"
          using c child(4) by (simp add: count_ok_def active_lines_def h_def)
      qed
      from F T S C show ?thesis by blast
    qed
  qed
  then show "forest_ok (visit e cfg i a m)"
    and "tick_rel {a} m (visit e cfg i a m)"
    and "seeds_rel i m (visit e cfg i a m)"
    and "count_ok m \<Longrightarrow> active (heap m ! a) \<Longrightarrow> count_ok (visit e cfg i a m)"
    by (simp_all add: m'_def)
qed

lemma seeds_rel_trans:
  assumes "seeds_rel i m m1" "seeds_rel i m1 m2"
  shows "seeds_rel i m m2"
proof -
  have n: "seeds m2 \<noteq> None" using assms(2) by (simp add: seeds_rel_def)
  have l1: "length (seeds_or_empty m1) = length (seeds_or_empty m)"
    using assms(1) by (simp add: seeds_rel_def)
  have l2: "length (seeds_or_empty m2) = length (seeds_or_empty m1)"
    using assms(2) by (simp add: seeds_rel_def)
  have s1: "\<And>j. j < length (seeds_or_empty m) \<Longrightarrow> j \<noteq> i \<Longrightarrow>
      seeds_or_empty m1 ! j = seeds_or_empty m ! j"
    using assms(1) unfolding seeds_rel_def by blast
  have s2: "\<And>j. j < length (seeds_or_empty m1) \<Longrightarrow> j \<noteq> i \<Longrightarrow>
      seeds_or_empty m2 ! j = seeds_or_empty m1 ! j"
    using assms(2) unfolding seeds_rel_def by blast
  obtain ext1 where e1: "lines (seeds_or_empty m1 ! i) = lines (seeds_or_empty m ! i) @ ext1"
    using assms(1) unfolding seeds_rel_def by blast
  obtain ext2 where e2: "lines (seeds_or_empty m2 ! i) = lines (seeds_or_empty m1 ! i) @ ext2"
    using assms(2) unfolding seeds_rel_def by blast
  have "lines (seeds_or_empty m2 ! i) = lines (seeds_or_empty m ! i) @ (ext1 @ ext2)"
    by (simp add: e1 e2)
  then have E: "\<exists>ext. lines (seeds_or_empty m2 ! i) = lines (seeds_or_empty m ! i) @ ext" by blast
  have S: "\<forall>j < length (seeds_or_empty m). j \<noteq> i \<longrightarrow>
      seeds_or_empty m2 ! j = seeds_or_empty m ! j"
  proof (intro allI impI)
    fix j assume j: "j < length (seeds_or_empty m)" "j \<noteq> i"
    have "seeds_or_empty m2 ! j = seeds_or_empty m1 ! j" using s2 [of j] j l1 by simp
    also have "\<dots> = seeds_or_empty m ! j" using s1 [of j] j by simp
    finally show "seeds_or_empty m2 ! j = seeds_or_empty m ! j" .
  qed
  have L: "length (seeds_or_empty m2) = length (seeds_or_empty m)" using l1 l2 by simp
  show ?thesis unfolding seeds_rel_def using n L S E by blast
qed

lemma seeds_rel_refl: "seeds m \<noteq> None \<Longrightarrow> seeds_rel i m m"
  unfolding seeds_rel_def by simp

lemma tick_rel_same:
  "tick_rel V m m' \<Longrightarrow> a < length (heap m) \<Longrightarrow> a \<notin> V \<Longrightarrow> heap m' ! a = heap m ! a"
  unfolding tick_rel_def by blast

lemma tick_rel_length: "tick_rel V m m' \<Longrightarrow> length (heap m) \<le> length (heap m')"
  unfolding tick_rel_def by blast

lemma tick_rel_steps:
  "tick_rel V m m' \<Longrightarrow> a \<in> V \<Longrightarrow> steps (heap m' ! a) = steps (heap m ! a) + 1"
  unfolding tick_rel_def by blast

lemma tick_rel_new:
  "tick_rel V m m' \<Longrightarrow> length (heap m) \<le> c \<Longrightarrow> c < length (heap m') \<Longrightarrow>
     steps (heap m' ! c) = 1 \<and> active (heap m' ! c) \<and> (\<exists>a \<in> V. parent (heap m' ! c) = Some a)"
  unfolding tick_rel_def by blast

lemma tick_rel_lines:
  "tick_rel V m m' \<Longrightarrow>
     set (all_lines m') = set (all_lines m) \<union> {length (heap m)..<length (heap m')}"
  unfolding tick_rel_def by blast

lemma forest_ok_bound: "forest_ok m \<Longrightarrow> a \<in> set (all_lines m) \<Longrightarrow> a < length (heap m)"
  unfolding forest_ok_def by blast

lemma seeds_rel_length:
  "seeds_rel i m m' \<Longrightarrow> length (seeds_or_empty m') = length (seeds_or_empty m)"
  unfolding seeds_rel_def by blast

lemma seeds_rel_other:
  "seeds_rel i m m' \<Longrightarrow> j < length (seeds_or_empty m) \<Longrightarrow> j \<noteq> i \<Longrightarrow>
     seeds_or_empty m' ! j = seeds_or_empty m ! j"
  unfolding seeds_rel_def by blast

lemma seeds_rel_lines:
  "seeds_rel i m m' \<Longrightarrow> set (lines (seeds_or_empty m ! i)) \<subseteq> set (lines (seeds_or_empty m' ! i))"
  unfolding seeds_rel_def by auto

lemma fold_visit:
  assumes "forest_ok m" "i < length (seeds_or_empty m)" "distinct vs"
    "set vs \<subseteq> set (lines (seeds_or_empty m ! i))"
  shows "forest_ok (fold (visit e cfg i) vs m) \<and>
         tick_rel (set vs) m (fold (visit e cfg i) vs m) \<and>
         seeds_rel i m (fold (visit e cfg i) vs m) \<and>
         (count_ok m \<longrightarrow> (\<forall>a \<in> set vs. active (heap m ! a)) \<longrightarrow>
            count_ok (fold (visit e cfg i) vs m))"
  using assms
proof (induction vs arbitrary: m)
  case Nil
  have "seeds m \<noteq> None" using Nil.prems(1) by (simp add: forest_ok_def)
  then show ?case using Nil.prems(1) by (simp add: tick_rel_refl seeds_rel_refl)
next
  case (Cons v vs)
  define m1 where "m1 = visit e cfg i v m"
  define m2 where "m2 = fold (visit e cfg i) vs m1"
  have v: "v \<in> set (lines (seeds_or_empty m ! i))" using Cons.prems(4) by simp
  have F1: "forest_ok m1" unfolding m1_def by (rule visit_step(1) [OF Cons.prems(1,2) v])
  have T1: "tick_rel {v} m m1" unfolding m1_def by (rule visit_step(2) [OF Cons.prems(1,2) v])
  have S1: "seeds_rel i m m1" unfolding m1_def by (rule visit_step(3) [OF Cons.prems(1,2) v])
  have C1: "count_ok m \<Longrightarrow> active (heap m ! v) \<Longrightarrow> count_ok m1"
    unfolding m1_def by (rule visit_step(4) [OF Cons.prems(1,2) v])
  have i1: "i < length (seeds_or_empty m1)"
    using seeds_rel_length [OF S1] Cons.prems(2) by simp
  have sub1: "set vs \<subseteq> set (lines (seeds_or_empty m1 ! i))"
    using seeds_rel_lines [OF S1] Cons.prems(4) by auto
  have d: "distinct vs" "v \<notin> set vs" using Cons.prems(3) by simp_all
  have ih: "forest_ok m2 \<and> tick_rel (set vs) m1 m2 \<and> seeds_rel i m1 m2 \<and>
         (count_ok m1 \<longrightarrow> (\<forall>a \<in> set vs. active (heap m1 ! a)) \<longrightarrow> count_ok m2)"
    unfolding m2_def by (rule Cons.IH [OF F1 i1 d(1) sub1])
  have bound: "\<And>a. a \<in> set (v # vs) \<Longrightarrow> a < length (heap m)"
  proof -
    fix a assume "a \<in> set (v # vs)"
    then have "a \<in> set (lines (seeds_or_empty m ! i))" using Cons.prems(4) by blast
    then have "a \<in> set (all_lines m)" using seed_lines_subset [OF Cons.prems(2)] by blast
    then show "a < length (heap m)" by (rule forest_ok_bound [OF Cons.prems(1)])
  qed
  have T: "tick_rel ({v} \<union> set vs) m m2"
  proof (rule tick_rel_trans [OF T1])
    show "tick_rel (set vs) m1 m2" using ih by blast
    show "{v} \<inter> set vs = {}" using d(2) by simp
    show "{v} \<union> set vs \<subseteq> {..<length (heap m)}" using bound by auto
  qed
  have S: "seeds_rel i m m2" using S1 ih by (blast intro: seeds_rel_trans)
  have C: "count_ok m \<longrightarrow> (\<forall>a \<in> set (v # vs). active (heap m ! a)) \<longrightarrow> count_ok m2"
  proof (intro impI)
    assume c: "count_ok m" and act: "\<forall>a \<in> set (v # vs). active (heap m ! a)"
    have c1: "count_ok m1" using C1 c act by simp
    have "\<forall>a \<in> set vs. active (heap m1 ! a)"
    proof
      fix a assume a: "a \<in> set vs"
      then have "a \<noteq> v" using d(2) by blast
      then have "heap m1 ! a = heap m ! a"
        using tick_rel_same [OF T1, of a] bound [of a] a by simp
      then show "active (heap m1 ! a)" using act a by simp
    qed
    then show "count_ok m2" using ih c1 by blast
  qed
  have "fold (visit e cfg i) (v # vs) m = m2" by (simp add: m2_def m1_def)
  moreover have "set (v # vs) = {v} \<union> set vs" by simp
  ultimately show ?case using ih T S C by presburger
qed

lemma seed_lines_distinct:
  assumes "distinct (all_lines m)" "i < length (seeds_or_empty m)"
  shows "distinct (lines (seeds_or_empty m ! i))"
proof -
  have "distinct (concat (map lines (take i (seeds_or_empty m))) @ lines (seeds_or_empty m ! i) @
      concat (map lines (drop (Suc i) (seeds_or_empty m))))"
    using assms(1) concat_lines_update(2) [OF assms(2)] by (simp add: all_lines_def)
  then show ?thesis by simp
qed

lemma seed_grow_step:
  assumes "forest_ok m" "i < length (seeds_or_empty m)"
  shows "forest_ok (seed_grow e cfg i m) \<and>
         tick_rel (seed_active m i) m (seed_grow e cfg i m) \<and>
         seeds_rel i m (seed_grow e cfg i m) \<and>
         (count_ok m \<longrightarrow> count_ok (seed_grow e cfg i m))"
proof -
  define vs where "vs = filter (\<lambda>a. active (heap m ! a)) (lines (seeds_or_empty m ! i))"
  define m' where "m' = fold (visit e cfg i) vs m"
  have "distinct (all_lines m)" using assms(1) by (simp add: forest_ok_def)
  then have d: "distinct vs"
    using seed_lines_distinct [OF _ assms(2)] by (simp add: vs_def)
  have sub: "set vs \<subseteq> set (lines (seeds_or_empty m ! i))" by (auto simp: vs_def)
  have r: "forest_ok m' \<and> tick_rel (set vs) m m' \<and> seeds_rel i m m' \<and>
         (count_ok m \<longrightarrow> (\<forall>a \<in> set vs. active (heap m ! a)) \<longrightarrow> count_ok m')"
    unfolding m'_def by (rule fold_visit [OF assms d sub])
  have sv: "set vs = seed_active m i" by (auto simp: vs_def seed_active_def)
  have act: "\<forall>a \<in> set vs. active (heap m ! a)" by (simp add: vs_def)
  have "seed_grow e cfg i m = m'" by (simp add: seed_grow_def vs_def m'_def)
  then show ?thesis using r sv act by simp
qed

lemma fold_seed_grow:
  assumes "forest_ok m" "distinct js" "\<forall>j \<in> set js. j < length (seeds_or_empty m)"
  shows "forest_ok (fold (seed_grow e cfg) js m) \<and>
         tick_rel (\<Union>j \<in> set js. seed_active m j) m (fold (seed_grow e cfg) js m) \<and>
         (count_ok m \<longrightarrow> count_ok (fold (seed_grow e cfg) js m))"
  using assms
proof (induction js arbitrary: m)
  case Nil
  then show ?case by (simp add: tick_rel_refl)
next
  case (Cons j js)
  define m1 where "m1 = seed_grow e cfg j m"
  define m2 where "m2 = fold (seed_grow e cfg) js m1"
  have j: "j < length (seeds_or_empty m)" using Cons.prems(3) by simp
  have dm: "distinct (all_lines m)" using Cons.prems(1) by (simp add: forest_ok_def)
  have st: "forest_ok m1 \<and> tick_rel (seed_active m j) m m1 \<and> seeds_rel j m m1 \<and>
         (count_ok m \<longrightarrow> count_ok m1)"
    unfolding m1_def by (rule seed_grow_step [OF Cons.prems(1) j])
  then have F1: "forest_ok m1" and T1: "tick_rel (seed_active m j) m m1"
    and S1: "seeds_rel j m m1" by blast+
  have d: "distinct js" "j \<notin> set js" using Cons.prems(2) by simp_all
  have b1: "\<forall>k \<in> set js. k < length (seeds_or_empty m1)"
    using Cons.prems(3) seeds_rel_length [OF S1] by simp
  have ih: "forest_ok m2 \<and> tick_rel (\<Union>k \<in> set js. seed_active m1 k) m1 m2 \<and>
         (count_ok m1 \<longrightarrow> count_ok m2)"
    unfolding m2_def by (rule Cons.IH [OF F1 d(1) b1])
  have bound: "\<And>k a. k < length (seeds_or_empty m) \<Longrightarrow> a \<in> seed_active m k \<Longrightarrow>
      a < length (heap m)"
  proof -
    fix k a assume k: "k < length (seeds_or_empty m)" and "a \<in> seed_active m k"
    then have "a \<in> set (all_lines m)" using seed_lines_subset [OF k] by (auto simp: seed_active_def)
    then show "a < length (heap m)" by (rule forest_ok_bound [OF Cons.prems(1)])
  qed
  have same: "seed_active m1 k = seed_active m k" if k: "k \<in> set js" for k
  proof -
    have kl: "k < length (seeds_or_empty m)" and kj: "k \<noteq> j"
      using k Cons.prems(3) d(2) by auto
    have sk: "seeds_or_empty m1 ! k = seeds_or_empty m ! k"
      by (rule seeds_rel_other [OF S1 kl kj])
    have "heap m1 ! a = heap m ! a" if a: "a \<in> set (lines (seeds_or_empty m ! k))" for a
    proof -
      have "a \<in> set (all_lines m)" using seed_lines_subset [OF kl] a by blast
      then have al: "a < length (heap m)" by (rule forest_ok_bound [OF Cons.prems(1)])
      have "a \<notin> set (lines (seeds_or_empty m ! j))"
        using seed_lines_disjoint [OF dm kl j kj] a by blast
      then have "a \<notin> seed_active m j" by (simp add: seed_active_def)
      then show ?thesis by (rule tick_rel_same [OF T1 al])
    qed
    then show ?thesis unfolding seed_active_def sk by auto
  qed
  then have U: "(\<Union>k \<in> set js. seed_active m1 k) = (\<Union>k \<in> set js. seed_active m k)" by simp
  have T2: "tick_rel (\<Union>k \<in> set js. seed_active m k) m1 m2" using ih U by simp
  have T: "tick_rel (seed_active m j \<union> (\<Union>k \<in> set js. seed_active m k)) m m2"
  proof (rule tick_rel_trans [OF T1 T2])
    show "seed_active m j \<inter> (\<Union>k \<in> set js. seed_active m k) = {}"
    proof -
      have "seed_active m j \<inter> seed_active m k = {}" if "k \<in> set js" for k
      proof -
        have kl: "k < length (seeds_or_empty m)" and kj: "k \<noteq> j"
          using that Cons.prems(3) d(2) by auto
        show ?thesis using seed_lines_disjoint [OF dm kl j kj] by (auto simp: seed_active_def)
      qed
      then show ?thesis by blast
    qed
    show "seed_active m j \<union> (\<Union>k \<in> set js. seed_active m k) \<subseteq> {..<length (heap m)}"
      using bound j Cons.prems(3) by auto
  qed
  have "fold (seed_grow e cfg) (j # js) m = m2" by (simp add: m2_def m1_def)
  moreover have "(\<Union>k \<in> set (j # js). seed_active m k) =
      seed_active m j \<union> (\<Union>k \<in> set js. seed_active m k)" by simp
  ultimately show ?case using ih T st by presburger
qed

lemma all_seed_active:
  "(\<Union>j \<in> set [0..<length (seeds_or_empty m)]. seed_active m j) =
     {a \<in> set (all_lines m). active (heap m ! a)}"
proof -
  have "a \<in> set (all_lines m) \<longleftrightarrow>
      (\<exists>j < length (seeds_or_empty m). a \<in> set (lines (seeds_or_empty m ! j)))" for a
  proof
    assume "a \<in> set (all_lines m)"
    then obtain sd where "sd \<in> set (seeds_or_empty m)" "a \<in> set (lines sd)"
      by (auto simp: all_lines_def)
    then show "\<exists>j < length (seeds_or_empty m). a \<in> set (lines (seeds_or_empty m ! j))"
      by (metis in_set_conv_nth)
  next
    assume "\<exists>j < length (seeds_or_empty m). a \<in> set (lines (seeds_or_empty m ! j))"
    then show "a \<in> set (all_lines m)" using seed_lines_subset by blast
  qed
  then show ?thesis by (auto simp: seed_active_def)
qed

lemma model_grow_step:
  assumes "forest_ok m"
  shows "\<exists>m'. model_grow e cfg m = Inr m' \<and> forest_ok m' \<and>
          tick_rel {a \<in> set (all_lines m). active (heap m ! a)} m m' \<and>
          (count_ok m \<longrightarrow> count_ok m')"
proof -
  obtain ss where ss: "seeds m = Some ss" using assms by (auto simp: forest_ok_def)
  have so: "seeds_or_empty m = ss" using ss by (simp add: seeds_or_empty_def)
  define m' where "m' = fold (seed_grow e cfg) [0..<length ss] m"
  have mg: "model_grow e cfg m = Inr m'" by (simp add: model_grow_def ss m'_def)
  have "forest_ok m' \<and>
         tick_rel (\<Union>j \<in> set [0..<length ss]. seed_active m j) m m' \<and>
         (count_ok m \<longrightarrow> count_ok m')"
    unfolding m'_def by (rule fold_seed_grow [OF assms]) (simp_all add: so)
  then show ?thesis using mg all_seed_active [of m] by (simp add: so)
qed

subsection \<open>Sequences of calls\<close>

lemma buildSeed_fields:
  "lines (fst (buildSeed e cfg m)) = [length (heap m)]"
  "\<exists>c. heap (snd (buildSeed e cfg m)) = heap m @ [c] \<and> steps c = 1 \<and> active c"
  "seeds (snd (buildSeed e cfg m)) = seeds m"
  "activeLineCount (snd (buildSeed e cfg m)) = activeLineCount m + 1"
  by (simp_all add: buildSeed_def Let_def split_beta)

lemma buildSeeds_spec:
  "\<exists>new. heap (snd (buildSeeds e cfg n m)) = heap m @ new \<and> length new = n \<and>
     (\<forall>c \<in> set new. steps c = 1 \<and> active c) \<and>
     concat (map lines (fst (buildSeeds e cfg n m))) = [length (heap m)..<length (heap m) + n] \<and>
     seeds (snd (buildSeeds e cfg n m)) = seeds m \<and>
     activeLineCount (snd (buildSeeds e cfg n m)) = activeLineCount m + int n"
proof (induction n arbitrary: m)
  case 0
  show ?case by simp
next
  case (Suc n)
  define m1 where "m1 = snd (buildSeed e cfg m)"
  obtain c where c: "heap m1 = heap m @ [c]" "steps c = 1" "active c"
    using buildSeed_fields(2) [of e cfg m] unfolding m1_def by blast
  obtain new where new: "heap (snd (buildSeeds e cfg n m1)) = heap m1 @ new" "length new = n"
     "\<forall>c \<in> set new. steps c = 1 \<and> active c"
     "concat (map lines (fst (buildSeeds e cfg n m1))) = [length (heap m1)..<length (heap m1) + n]"
     "seeds (snd (buildSeeds e cfg n m1)) = seeds m1"
     "activeLineCount (snd (buildSeeds e cfg n m1)) = activeLineCount m1 + int n"
    using Suc.IH [of m1] by blast
  have s1: "seeds m1 = seeds m" "activeLineCount m1 = activeLineCount m + 1"
    by (simp_all add: m1_def buildSeed_fields)
  have r: "buildSeeds e cfg (Suc n) m =
      (fst (buildSeed e cfg m) # fst (buildSeeds e cfg n m1), snd (buildSeeds e cfg n m1))"
    by (simp add: split_beta m1_def)
  have "heap (snd (buildSeeds e cfg (Suc n) m)) = heap m @ (c # new)"
    by (simp add: r new(1) c(1) del: buildSeeds.simps)
  moreover have "length (c # new) = Suc n" by (simp add: new(2))
  moreover have "\<forall>c' \<in> set (c # new). steps c' = 1 \<and> active c'" using c new(3) by simp
  moreover have "concat (map lines (fst (buildSeeds e cfg (Suc n) m))) =
      [length (heap m)..<length (heap m) + Suc n]"
    by (simp add: r new(4) c(1) buildSeed_fields(1) upt_rec [of "length (heap m)"] del: buildSeeds.simps)
  moreover have "seeds (snd (buildSeeds e cfg (Suc n) m)) = seeds m"
    by (simp add: r new(5) s1 del: buildSeeds.simps)
  moreover have "activeLineCount (snd (buildSeeds e cfg (Suc n) m)) = activeLineCount m + int (Suc n)"
    by (simp add: r new(6) s1 del: buildSeeds.simps)
  ultimately show ?case by blast
qed

lemma generate_spec:
  assumes "0 \<le> seedCount cfg" "seedCount cfg \<le> 4294967295"
  shows "\<exists>m' new. generate e cfg m = Inr m' \<and> heap m' = heap m @ new \<and>
     length new = nat (seedCount cfg) \<and> (\<forall>c \<in> set new. steps c = 1 \<and> active c) \<and>
     all_lines m' = [length (heap m)..<length (heap m) + nat (seedCount cfg)] \<and>
     activeLineCount m' = activeLineCount m + seedCount cfg"
proof -
  define n where "n = nat (seedCount cfg)"
  define r where "r = buildSeeds e cfg n m"
  obtain new where new: "heap (snd r) = heap m @ new" "length new = n"
     "\<forall>c \<in> set new. steps c = 1 \<and> active c"
     "concat (map lines (fst r)) = [length (heap m)..<length (heap m) + n]"
     "activeLineCount (snd r) = activeLineCount m + int n"
    using buildSeeds_spec [of e cfg n m] unfolding r_def by blast
  have g: "generate e cfg m = Inr ((snd r)\<lparr>seeds := Some (fst r)\<rparr>)"
    using assms by (simp add: generate_def split_beta r_def n_def)
  have "all_lines ((snd r)\<lparr>seeds := Some (fst r)\<rparr>) = [length (heap m)..<length (heap m) + n]"
    by (simp add: all_lines_def seeds_or_empty_def new(4))
  moreover have "int n = seedCount cfg" using assms by (simp add: n_def)
  ultimately show ?thesis using g new unfolding n_def [symmetric] by simp
qed

lemma generate_cases:
  "generate e cfg m = Inl RangeError \<or> (\<exists>m'. generate e cfg m = Inr m')"
  by (simp add: generate_def split_beta)

lemma generate_new_ok:
  assumes "generate e cfg (init_model sd) = Inr m'"
  shows "forest_ok m' \<and> count_ok m' \<and> (\<forall>a \<in> set (all_lines m'). steps (heap m' ! a) = 1 \<and> active (heap m' ! a))"
proof -
  have sc: "0 \<le> seedCount cfg" "seedCount cfg \<le> 4294967295"
    using assms by (auto simp: generate_def split: if_splits)
  define n where "n = nat (seedCount cfg)"
  obtain new where new: "heap m' = new" "length new = n" "\<forall>c \<in> set new. steps c = 1 \<and> active c"
     "all_lines m' = [0..<n]" "activeLineCount m' = seedCount cfg"
    using generate_spec [OF sc, of e "init_model sd"] assms
    by (auto simp: init_model_def n_def)
  have sm: "seeds m' \<noteq> None" using assms by (auto simp: generate_def split_beta split: if_splits)
  have act: "\<forall>a \<in> set (all_lines m'). steps (heap m' ! a) = 1 \<and> active (heap m' ! a)"
    using new by simp
  have F: "forest_ok m'" using sm new by (simp add: forest_ok_def)
  have "filter (\<lambda>a. active (heap m' ! a)) (all_lines m') = all_lines m'"
    using act by (simp add: filter_id_conv)
  then have C: "count_ok m'" using new sc by (simp add: count_ok_def active_lines_def n_def)
  from F C act show ?thesis by blast
qed

lemma count_ok_isActive:
  "count_ok m \<Longrightarrow> isActive m \<longleftrightarrow> (\<exists>a \<in> set (all_lines m). active (heap m ! a))"
  by (auto simp: count_ok_def isActive_def active_lines_def filter_empty_conv)

lemma after_call_Grow_init: "after_call e cfg Grow (init_model sd) = init_model sd"
  by (simp add: after_call_def call_model_def model_grow_def init_model_def)

lemma after_call_Grow_ok:
  assumes "forest_ok m"
  shows "model_grow e cfg m = Inr (after_call e cfg Grow m)"
    and "forest_ok (after_call e cfg Grow m)"
    and "tick_rel {a \<in> set (all_lines m). active (heap m ! a)} m (after_call e cfg Grow m)"
    and "count_ok m \<Longrightarrow> count_ok (after_call e cfg Grow m)"
proof -
  obtain m' where m': "model_grow e cfg m = Inr m'" "forest_ok m'"
      "tick_rel {a \<in> set (all_lines m). active (heap m ! a)} m m'" "count_ok m \<longrightarrow> count_ok m'"
    using model_grow_step [OF assms, of e cfg] by blast
  have "after_call e cfg Grow m = m'" by (simp add: after_call_def call_model_def m'(1))
  then show "model_grow e cfg m = Inr (after_call e cfg Grow m)"
    and "forest_ok (after_call e cfg Grow m)"
    and "tick_rel {a \<in> set (all_lines m). active (heap m ! a)} m (after_call e cfg Grow m)"
    and "count_ok m \<Longrightarrow> count_ok (after_call e cfg Grow m)"
    using m' by simp_all
qed

lemma count_ok_init: "count_ok (init_model sd)"
  by (simp add: count_ok_def active_lines_def all_lines_def seeds_or_empty_def init_model_def)

lemma calls_invariant:
  assumes "length (filter (\<lambda>c. c = Generate) cs) \<le> 1"
    and "m = init_model sd \<or> (forest_ok m \<and> count_ok m \<and> Generate \<notin> set cs)"
  shows "count_ok (calls e cfg cs m)"
  using assms
proof (induction cs arbitrary: m)
  case Nil
  then show ?case by (auto simp: calls_def count_ok_init)
next
  case (Cons c cs)
  have step: "calls e cfg (c # cs) m = calls e cfg cs (after_call e cfg c m)"
    by (simp add: calls_def)
  have le: "length (filter (\<lambda>c. c = Generate) cs) \<le> 1" using Cons.prems(1) by (simp split: if_splits)
  from Cons.prems(2) show ?case
  proof
    assume init: "m = init_model sd"
    show ?thesis
    proof (cases c)
      case Grow
      then have "after_call e cfg c m = init_model sd" by (simp add: init after_call_Grow_init)
      then show ?thesis using Cons.IH [OF le, of "init_model sd"] by (simp add: step)
    next
      case Generate
      then have no: "Generate \<notin> set cs"
        using Cons.prems(1) by (auto simp: filter_empty_conv)
      from generate_cases [of e cfg m] show ?thesis
      proof
        assume "generate e cfg m = Inl RangeError"
        then have "after_call e cfg c m = init_model sd"
          by (simp add: after_call_def call_model_def Generate init)
        then show ?thesis using Cons.IH [OF le, of "init_model sd"] by (simp add: step)
      next
        assume "\<exists>m'. generate e cfg m = Inr m'"
        then obtain m' where m': "generate e cfg m = Inr m'" by blast
        then have "forest_ok m' \<and> count_ok m'" using generate_new_ok [of e cfg sd m'] by (simp add: init)
        moreover have "after_call e cfg c m = m'" by (simp add: after_call_def call_model_def Generate m')
        ultimately show ?thesis using Cons.IH [OF le, of m'] no by (simp add: step)
      qed
    qed
  next
    assume ok: "forest_ok m \<and> count_ok m \<and> Generate \<notin> set (c # cs)"
    then have c: "c = Grow" by (cases c) auto
    have "forest_ok (after_call e cfg c m) \<and> count_ok (after_call e cfg c m)"
      using after_call_Grow_ok(2,4) [of m e cfg] ok by (simp add: c)
    then show ?thesis using Cons.IH [OF le, of "after_call e cfg c m"] ok by (simp add: step)
  qed
qed

text \<open>
  Claim C10, as the code has it. After any sequence of \<^verbatim>\<open>generate\<close> and
  \<^verbatim>\<open>grow\<close> calls on a new model in which \<^verbatim>\<open>generate\<close> is called at most
  once, \<^verbatim>\<open>activeLineCount\<close> is the number of active lines of the forest, and
  \<^verbatim>\<open>isActive\<close> is true exactly when some line of the forest is active.
\<close>

theorem active_count_invariant:
  assumes "length (filter (\<lambda>c. c = Generate) cs) \<le> 1"
  shows "activeLineCount (calls e cfg cs (init_model sd)) =
           int (length (active_lines (calls e cfg cs (init_model sd)))) \<and>
         (isActive (calls e cfg cs (init_model sd)) \<longleftrightarrow>
            (\<exists>a \<in> set (all_lines (calls e cfg cs (init_model sd))).
               active (heap (calls e cfg cs (init_model sd)) ! a)))"
proof -
  have "count_ok (calls e cfg cs (init_model sd))"
    using assms by (rule calls_invariant [where sd = sd]) simp
  then show ?thesis using count_ok_isActive by (simp add: count_ok_def)
qed

theorem active_count_invariant_witness:
  "length (filter (\<lambda>c. c = Generate) [Grow, Generate, Grow, Grow]) \<le> 1 \<and>
   activeLineCount (calls screen config1 [Grow, Generate, Grow, Grow] (init_model 1)) =
     int (length (active_lines (calls screen config1 [Grow, Generate, Grow, Grow] (init_model 1))))"
  using active_count_invariant [of "[Grow, Generate, Grow, Grow]" screen config1 1] by simp

text \<open>
  \<^verbatim>\<open>generate\<close> does not reset the counter: a second call replaces the forest
  and counts its lines on top of those of the first.
\<close>

lemma generate_twice:
  "activeLineCount (calls screen config1 [Generate, Generate] (init_model 1)) = 2 \<and>
   active_lines (calls screen config1 [Generate, Generate] (init_model 1)) = [1]"
proof -
  have sc: "0 \<le> seedCount config1" "seedCount config1 \<le> 4294967295" by (simp_all add: config1_def)
  obtain m1 new1 where m1: "generate screen config1 (init_model 1) = Inr m1"
     "heap m1 = heap (init_model 1) @ new1" "length new1 = nat (seedCount config1)"
     "activeLineCount m1 = activeLineCount (init_model 1) + seedCount config1"
    using generate_spec [OF sc, of screen "init_model 1"] by blast
  obtain m2 new2 where m2: "generate screen config1 m1 = Inr m2"
     "heap m2 = heap m1 @ new2" "length new2 = nat (seedCount config1)"
     "\<forall>c \<in> set new2. steps c = 1 \<and> active c"
     "all_lines m2 = [length (heap m1)..<length (heap m1) + nat (seedCount config1)]"
     "activeLineCount m2 = activeLineCount m1 + seedCount config1"
    using generate_spec [OF sc, of screen m1] by blast
  have c: "calls screen config1 [Generate, Generate] (init_model 1) = m2"
    by (simp add: calls_def after_call_def call_model_def m1(1) m2(1))
  have l1: "length (heap m1) = 1" using m1 by (simp add: init_model_def config1_def)
  obtain c2 where c2: "new2 = [c2]" using m2(3) by (cases new2) (auto simp: config1_def)
  have "heap m2 ! 1 = c2" using l1 by (simp add: m2(2) c2 nth_append)
  moreover have "active c2" using m2(4) c2 by simp
  moreover have "all_lines m2 = [1]" using m2(5) l1 by (simp add: config1_def)
  ultimately have "active_lines m2 = [1]" by (simp add: active_lines_def)
  moreover have "activeLineCount m2 = 2" using m1(4) m2(6) by (simp add: init_model_def config1_def)
  ultimately show ?thesis by (simp add: c)
qed

text \<open>
  Claim C10 as stated fails: after two calls of \<^verbatim>\<open>generate\<close> with one seed the
  counter is 2 and the forest has one active line.
\<close>

theorem active_count_counterexample:
  "activeLineCount (calls screen config1 [Generate, Generate] (init_model 1)) \<noteq>
     int (length (active_lines (calls screen config1 [Generate, Generate] (init_model 1))))"
  using generate_twice by simp

subsection \<open>What a tick does to the lines\<close>

lemmas run_defs = model_grow_def seed_grow_def seeds_or_empty_def visit_def line_grow_def grow_def
  buildLine_def push_line_def deactivate_def clip_def checkForCollisions_def
  forEachLineUntilTrue_def collision_visitor_def lineOffscreen_def growthRate_def
  rnd_def Let_def split_beta

lemmas input_defs = forest1_def config1_def screen_def segment_def line0_def

text \<open>The first six draws of the generator made from 1.\<close>

lemma draws_from_1:
  "mulberry32 1 = (2693262067 / 4294967296, 1831565814)"
  "mulberry32 1831565814 = (11749833 / 4294967296, 3663131627)"
  "mulberry32 3663131627 = (2265367787 / 4294967296, 5494697440)"
  "mulberry32 5494697440 = (4213581821 / 4294967296, 7326263253)"
  "mulberry32 7326263253 = (4159151403 / 4294967296, 9157829066)"
  "mulberry32 9157829066 = (75458147 / 268435456, 10989394879)"
  by (simp_all add: mulberry32_def Let_def)

text \<open>
  One tick on the forest of one line: the line grows to \<open>(5, 7)\<close>, stays on screen,
  meets no other line and splits; its child starts at its tip and has grown once.
\<close>

lemma tick_forest1:
  "model_grow screen config1 forest1 =
     Inr \<lparr>heap =
            [\<lparr>p0 = \<lparr>px = 5, py = 5\<rparr>, p1 = \<lparr>px = 5, py = 7\<rparr>, angle = 0,
              generation = 0, parent = None, active = True, split = False,
              expired = False, steps = 2, rnd_tag = 0\<rparr>,
             \<lparr>p0 = \<lparr>px = 5, py = 7\<rparr>, p1 = \<lparr>px = 4, py = 7\<rparr>,
              angle = - (pi / 2), generation = 1, parent = Some 0,
              active = True, split = True, expired = False, steps = 1,
              rnd_tag = 4213581821 / 4294967296\<rparr>],
          seeds = Some [\<lparr>seed_angle = 0, lines = [0, 1]\<rparr>],
          activeLineCount = 2, rng = 10989394879\<rparr>"
  by (simp add: run_defs input_defs draws_from_1)

lemma forest_ok_forest1: "forest_ok forest1"
  by (simp add: forest_ok_def all_lines_def seeds_or_empty_def forest1_def)

lemma model_grow_lines:
  assumes ok: "forest_ok m" and g: "model_grow e cfg m = Inr m'"
  shows "(\<forall>a \<in> set (all_lines m).
            steps (heap m' ! a) = steps (heap m ! a) + (if active (heap m ! a) then 1 else 0)) \<and>
         (\<forall>a \<in> set (all_lines m). \<not> active (heap m ! a) \<longrightarrow> heap m' ! a = heap m ! a) \<and>
         set (all_lines m) \<subseteq> set (all_lines m') \<and>
         (\<forall>c \<in> set (all_lines m') - set (all_lines m).
            steps (heap m' ! c) = 1 \<and> active (heap m' ! c) \<and>
            (\<exists>a \<in> set (all_lines m). active (heap m ! a) \<and> parent (heap m' ! c) = Some a))"
proof -
  define V where "V = {a \<in> set (all_lines m). active (heap m ! a)}"
  have m': "m' = after_call e cfg Grow m" using g by (simp add: after_call_def call_model_def)
  have T: "tick_rel V m m'" unfolding V_def m' by (rule after_call_Grow_ok(3) [OF ok])
  have A: "\<forall>a \<in> set (all_lines m).
            steps (heap m' ! a) = steps (heap m ! a) + (if active (heap m ! a) then 1 else 0)"
  proof
    fix a assume a: "a \<in> set (all_lines m)"
    then have al: "a < length (heap m)" by (rule forest_ok_bound [OF ok])
    show "steps (heap m' ! a) = steps (heap m ! a) + (if active (heap m ! a) then 1 else 0)"
    proof (cases "active (heap m ! a)")
      case True
      then have "a \<in> V" using a by (simp add: V_def)
      then show ?thesis using tick_rel_steps [OF T] True by simp
    next
      case False
      then have "a \<notin> V" by (simp add: V_def)
      then show ?thesis using tick_rel_same [OF T al] False by simp
    qed
  qed
  have B: "\<forall>a \<in> set (all_lines m). \<not> active (heap m ! a) \<longrightarrow> heap m' ! a = heap m ! a"
  proof (intro ballI impI)
    fix a assume a: "a \<in> set (all_lines m)" and "\<not> active (heap m ! a)"
    then have "a \<notin> V" by (simp add: V_def)
    then show "heap m' ! a = heap m ! a"
      using tick_rel_same [OF T forest_ok_bound [OF ok a]] by simp
  qed
  have L: "set (all_lines m') = set (all_lines m) \<union> {length (heap m)..<length (heap m')}"
    by (rule tick_rel_lines [OF T])
  have C: "\<forall>c \<in> set (all_lines m') - set (all_lines m).
            steps (heap m' ! c) = 1 \<and> active (heap m' ! c) \<and>
            (\<exists>a \<in> set (all_lines m). active (heap m ! a) \<and> parent (heap m' ! c) = Some a)"
  proof
    fix c assume "c \<in> set (all_lines m') - set (all_lines m)"
    then have "length (heap m) \<le> c" "c < length (heap m')" using L by auto
    from tick_rel_new [OF T this]
    show "steps (heap m' ! c) = 1 \<and> active (heap m' ! c) \<and>
            (\<exists>a \<in> set (all_lines m). active (heap m ! a) \<and> parent (heap m' ! c) = Some a)"
      by (auto simp: V_def)
  qed
  from A B C L show ?thesis by blast
qed

text \<open>
  Claim C3, as the code has it. A tick on a forest whose lines are in the store, each
  listed once, returns; the loop visits exactly the lines that were active when the tick
  began, each once: the step count of such a line rises by exactly one, and a line that
  was inactive is left as it was. A child spawned in the tick is not visited by the loop
  in that tick (it is still active at the end, and every new line is the child of a line
  that was there at the start), but \<^verbatim>\<open>buildLine\<close> has called its \<^verbatim>\<open>grow\<close> once:
  its step count is 1 at the end of the tick.
\<close>

theorem model_grow_visits:
  assumes "forest_ok m"
  shows "\<exists>m'. model_grow e cfg m = Inr m' \<and>
         (\<forall>a \<in> set (all_lines m).
            steps (heap m' ! a) = steps (heap m ! a) + (if active (heap m ! a) then 1 else 0)) \<and>
         (\<forall>a \<in> set (all_lines m). \<not> active (heap m ! a) \<longrightarrow> heap m' ! a = heap m ! a) \<and>
         set (all_lines m) \<subseteq> set (all_lines m') \<and>
         (\<forall>c \<in> set (all_lines m') - set (all_lines m).
            steps (heap m' ! c) = 1 \<and> active (heap m' ! c) \<and>
            (\<exists>a \<in> set (all_lines m). active (heap m ! a) \<and> parent (heap m' ! c) = Some a))"
proof -
  have "model_grow e cfg m = Inr (after_call e cfg Grow m)"
    by (rule after_call_Grow_ok(1) [OF assms])
  then show ?thesis using model_grow_lines [OF assms] by blast
qed

theorem model_grow_visits_witness:
  "forest_ok forest1 \<and>
   (\<exists>m'. model_grow screen config1 forest1 = Inr m' \<and>
      steps (heap forest1 ! 0) = 1 \<and> steps (heap m' ! 0) = 2 \<and>
      all_lines m' = [0, 1] \<and> steps (heap m' ! 1) = 1 \<and> active (heap m' ! 1) \<and>
      parent (heap m' ! 1) = Some 0)"
proof -
  obtain m' where m': "model_grow screen config1 forest1 = Inr m'"
      "\<forall>a \<in> set (all_lines forest1).
          steps (heap m' ! a) = steps (heap forest1 ! a) + (if active (heap forest1 ! a) then 1 else 0)"
      "\<forall>c \<in> set (all_lines m') - set (all_lines forest1).
          steps (heap m' ! c) = 1 \<and> active (heap m' ! c) \<and>
          (\<exists>a \<in> set (all_lines forest1). active (heap forest1 ! a) \<and> parent (heap m' ! c) = Some a)"
    using model_grow_visits [OF forest_ok_forest1, of screen config1] by blast
  have f: "all_lines forest1 = [0]" "steps (heap forest1 ! 0) = 1" "active (heap forest1 ! 0)"
    by (simp_all add: all_lines_def seeds_or_empty_def input_defs)
  have l: "all_lines m' = [0, 1]"
    using m'(1) by (auto simp: tick_forest1 all_lines_def seeds_or_empty_def)
  have "steps (heap m' ! 0) = 2" using m'(2) f by simp
  moreover have "steps (heap m' ! 1) = 1 \<and> active (heap m' ! 1) \<and> parent (heap m' ! 1) = Some 0"
    using m'(3) f l by simp
  ultimately show ?thesis using forest_ok_forest1 m'(1) f l by blast
qed

text \<open>
  Claim C3 as stated fails: in the tick on the forest of one line, line 1 is not there
  at the start, and at the end its step count is 1, so its \<^verbatim>\<open>grow\<close> has run in
  that tick.
\<close>

theorem model_grow_visits_counterexample:
  "all_lines forest1 = [0] \<and>
   all_lines (projr (model_grow screen config1 forest1)) = [0, 1] \<and>
   steps (heap (projr (model_grow screen config1 forest1)) ! 1) = 1"
proof -
  have "all_lines forest1 = [0]" by (simp add: all_lines_def seeds_or_empty_def forest1_def)
  then show ?thesis by (simp add: tick_forest1 all_lines_def seeds_or_empty_def)
qed

lemma calls_Nil: "calls e cfg [] m = m"
  by (simp add: calls_def)

lemma calls_Cons: "calls e cfg (c # cs) m = calls e cfg cs (after_call e cfg c m)"
  by (simp add: calls_def)

lemma steps_ticks:
  assumes "forest_ok m" "a \<in> set (all_lines m)"
    "\<forall>j<k. active (heap (calls e cfg (replicate j Grow) m) ! a)"
  shows "steps (heap (calls e cfg (replicate k Grow) m) ! a) = steps (heap m ! a) + k"
  using assms
proof (induction k arbitrary: m)
  case 0
  show ?case by (simp add: calls_Nil)
next
  case (Suc k)
  define m1 where "m1 = after_call e cfg Grow m"
  have g: "model_grow e cfg m = Inr m1" unfolding m1_def by (rule after_call_Grow_ok(1) [OF Suc.prems(1)])
  have F1: "forest_ok m1" unfolding m1_def by (rule after_call_Grow_ok(2) [OF Suc.prems(1)])
  note L = model_grow_lines [OF Suc.prems(1) g]
  have "active (heap (calls e cfg (replicate 0 Grow) m) ! a)" using Suc.prems(3) by blast
  then have act: "active (heap m ! a)" by (simp add: calls_Nil)
  have s1: "steps (heap m1 ! a) = steps (heap m ! a) + 1" using L Suc.prems(2) act by simp
  have a1: "a \<in> set (all_lines m1)" using L Suc.prems(2) by blast
  have "\<forall>j<k. active (heap (calls e cfg (replicate j Grow) m1) ! a)"
  proof (intro allI impI)
    fix j assume "j < k"
    then have "Suc j < Suc k" by simp
    then have "active (heap (calls e cfg (replicate (Suc j) Grow) m) ! a)" using Suc.prems(3) by blast
    then show "active (heap (calls e cfg (replicate j Grow) m1) ! a)"
      by (simp add: calls_Cons m1_def)
  qed
  from Suc.IH [OF F1 a1 this] s1 show ?case by (simp add: calls_Cons m1_def)
qed

text \<open>
  Claim C8, as the code has it. A line is created with step count 1, by
  \<^verbatim>\<open>generate\<close> or by a split, since \<^verbatim>\<open>buildLine\<close> grows it once; from then on its
  step count rises by one in each tick at whose start it is active. A line that is
  active at the start of each of \<open>k\<close> ticks in a row has gained \<open>k\<close> steps by the end
  of them, so a line of \<^verbatim>\<open>generate\<close> has then step count \<open>k + 1\<close>.
\<close>

theorem steps_count:
  "(generate e cfg (init_model sd) = Inr m0 \<longrightarrow>
      (\<forall>a \<in> set (all_lines m0). steps (heap m0 ! a) = 1)) \<and>
   (forest_ok m \<and> model_grow e cfg m = Inr m' \<longrightarrow>
      (\<forall>c \<in> set (all_lines m') - set (all_lines m). steps (heap m' ! c) = 1)) \<and>
   (forest_ok m \<and> a \<in> set (all_lines m) \<and>
    (\<forall>j<k. active (heap (calls e cfg (replicate j Grow) m) ! a)) \<longrightarrow>
      steps (heap (calls e cfg (replicate k Grow) m) ! a) = steps (heap m ! a) + k)"
  using generate_new_ok [of e cfg sd m0] model_grow_lines [of m e cfg m']
    steps_ticks [of m a k e cfg]
  by blast

lemma generate_config1:
  "\<exists>m0. generate screen config1 (init_model 1) = Inr m0 \<and> all_lines m0 = [0] \<and>
     forest_ok m0 \<and> steps (heap m0 ! 0) = 1 \<and> active (heap m0 ! 0)"
proof -
  have sc: "0 \<le> seedCount config1" "seedCount config1 \<le> 4294967295" by (simp_all add: config1_def)
  obtain m0 where m0: "generate screen config1 (init_model 1) = Inr m0"
     "all_lines m0 = [length (heap (init_model 1))..<length (heap (init_model 1)) + nat (seedCount config1)]"
    using generate_spec [OF sc, of screen "init_model 1"] by blast
  have "all_lines m0 = [0]" using m0(2) by (simp add: init_model_def config1_def)
  then show ?thesis using m0(1) generate_new_ok [OF m0(1)] by simp
qed

theorem steps_count_witness:
  "generate screen config1 (init_model 1) = Inr (projr (generate screen config1 (init_model 1))) \<and>
   steps (heap (projr (generate screen config1 (init_model 1))) ! 0) = 1 \<and>
   forest_ok forest1 \<and>
   model_grow screen config1 forest1 = Inr (projr (model_grow screen config1 forest1)) \<and>
   steps (heap (projr (model_grow screen config1 forest1)) ! 1) = 1 \<and>
   0 \<in> set (all_lines forest1) \<and>
   active (heap (calls screen config1 (replicate 0 Grow) forest1) ! 0) \<and>
   steps (heap (calls screen config1 (replicate 1 Grow) forest1) ! 0) = steps (heap forest1 ! 0) + 1"
proof -
  obtain m0 where m0: "generate screen config1 (init_model 1) = Inr m0" "all_lines m0 = [0]"
    using generate_config1 by blast
  have g: "model_grow screen config1 forest1 = Inr (projr (model_grow screen config1 forest1))"
    by (simp add: tick_forest1)
  have l1: "all_lines (projr (model_grow screen config1 forest1)) = [0, 1]"
    by (simp add: tick_forest1 all_lines_def seeds_or_empty_def)
  have f: "all_lines forest1 = [0]" "active (heap forest1 ! 0)"
    by (simp_all add: all_lines_def seeds_or_empty_def input_defs)
  have h: "\<forall>j<1. active (heap (calls screen config1 (replicate j Grow) forest1) ! 0)"
    using f(2) by (simp add: calls_Nil)
  show ?thesis
    using steps_count [of screen config1 1 m0 forest1 "projr (model_grow screen config1 forest1)" 0 1]
      m0 g l1 f h forest_ok_forest1
    by simp
qed

text \<open>
  Claim C8 as stated fails: the line made by \<^verbatim>\<open>generate\<close> is active when the first
  tick begins, and after that one tick its step count is 2.
\<close>

theorem steps_count_counterexample:
  "active (heap (calls screen config1 [Generate] (init_model 1)) ! 0) \<and>
   steps (heap (calls screen config1 [Generate, Grow] (init_model 1)) ! 0) = 2"
proof -
  obtain m0 where m0: "generate screen config1 (init_model 1) = Inr m0" "all_lines m0 = [0]"
      "forest_ok m0" "steps (heap m0 ! 0) = 1" "active (heap m0 ! 0)"
    using generate_config1 by blast
  have c0: "calls screen config1 [Generate] (init_model 1) = m0"
    by (simp add: calls_def after_call_def call_model_def m0(1))
  have c1: "calls screen config1 [Generate, Grow] (init_model 1) = after_call screen config1 Grow m0"
    by (simp add: calls_def after_call_def call_model_def m0(1))
  have "steps (heap (calls screen config1 (replicate 1 Grow) m0) ! 0) = steps (heap m0 ! 0) + 1"
    using m0 by (intro steps_ticks) (simp_all add: calls_Nil)
  then have "steps (heap (after_call screen config1 Grow m0) ! 0) = 2"
    using m0(4) by (simp add: calls_Cons calls_Nil)
  then show ?thesis using m0(5) by (simp add: c0 c1)
qed

subsection \<open>The loop body of a tick\<close>






subsection \<open>Runs from a seed\<close>

lemma snd_mulberry32 [simp]: "snd (mulberry32 sd) = sd + 1831565813"
  by (simp add: mulberry32_def Let_def)

lemma snd_rnd [simp]: "snd (rnd a b sd) = sd + 1831565813"
  by (simp add: rnd_def Let_def split_beta)

lemma snd_grow [simp]: "snd (grow cfg l sd) = sd + 2 * 1831565813"
  by (simp add: grow_def Let_def split_beta)



















end
